theory Spec2Isabelle
  imports Main "HOL-Library.AList" "HOL-Library.Multiset"
begin

section \<open>The room server of \<open>src/server.js\<close>\<close>

text \<open>
  The server keeps every room in one \<open>Map\<close> from room code to room object, and every
  room keeps its players in a \<open>Map\<close> from socket id to player object. A JavaScript
  \<open>Map\<close> iterates in insertion order, \<open>set\<close> on a present key replaces the value where it
  stands and \<open>delete\<close> removes the entry: an association list with \<open>AList.update\<close>,
  \<open>AList.delete\<close> and \<open>map_of\<close>. Socket ids and room codes are strings, compared
  as they are. The text fields of a payload that the server passes through the string
  built-ins (\<open>name\<close> through \<open>trim\<close>, \<open>slice\<close> and \<open>replace\<close>, \<open>code\<close> through
  \<open>toUpperCase\<close>) are ASCII text, of type \<open>String.literal\<close>: on ASCII these
  built-ins are the functions \<open>trim\<close> and \<open>toUpperCase\<close> below, and what they do to
  other Unicode text is not modelled. \<open>Date.now()\<close> is an \<open>int\<close> of milliseconds, read
  once per handler run (twice in \<open>start-race\<close> and once for every room in the TTL sweep,
  as in the source) and passed in with the message. What socket.io keeps for itself (which sockets \<open>socket.join\<close> put in which
  broadcast room) is not modelled: a message is recorded with the target it is sent to.
\<close>

subsection \<open>Data model\<close>

datatype phase = Lobby | Racing | Finished

record player =
  socketId :: string
  name :: string
  carModel :: string
  carColor :: string
  progress :: nat
  clickCount :: nat
  lastClickTime :: int
  finishedAt :: "int option"
  rank :: "nat option"
  dnf :: bool
  disconnected :: bool

record room =
  code :: string
  hostSocketId :: string
  phase :: phase
  players :: "(string \<times> player) list"
  createdAt :: int
  raceStartedAt :: "int option"
  finishedCount :: nat
  broadcastInterval :: "nat option"
  raceTimeout :: "nat option"

text \<open>The object \<open>serializePlayer\<close> builds.\<close>

datatype player_view =
  PlayerView (vSocketId: string) (vName: string) (vCarModel: string) (vCarColor: string)
    (vProgress: nat) (vRank: "nat option") (vDnf: bool) (vDisconnected: bool)

text \<open>
  What the server sends: \<open>socket.emit\<close> reaches one socket, \<open>io.to(code).emit\<close> a whole
  room, \<open>socket.to(code).emit\<close> the room without the sender.
\<close>

datatype target = ToSocket string | ToRoom string | ToRoomExcept string string

datatype msg =
    RoomCreated string player_view
  | JoinError string
  | RoomJoined string string "player_view list" "phase option"
  | PlayerJoined player_view
  | RejoinFailed string
  | StartError string
  | RaceStarted int
  | ProgressUpdate "(string \<times> nat) list"
  | PlayerFinished string nat int
  | RaceFinished "player_view list"
  | PlayerLeft string "string option"
  | RoomReset "player_view list" string

fun event_name :: "msg \<Rightarrow> string" where
  "event_name (RoomCreated _ _) = ''room-created''"
| "event_name (JoinError _) = ''join-error''"
| "event_name (RoomJoined _ _ _ _) = ''room-joined''"
| "event_name (PlayerJoined _) = ''player-joined''"
| "event_name (RejoinFailed _) = ''rejoin-failed''"
| "event_name (StartError _) = ''start-error''"
| "event_name (RaceStarted _) = ''race-started''"
| "event_name (ProgressUpdate _) = ''progress-update''"
| "event_name (PlayerFinished _ _ _) = ''player-finished''"
| "event_name (RaceFinished _) = ''race-finished''"
| "event_name (PlayerLeft _ _) = ''player-left''"
| "event_name (RoomReset _ _) = ''room-reset''"

text \<open>
  A running \<open>setInterval\<close> or \<open>setTimeout\<close>: its handle, which callback it runs and the
  \<open>roomCode\<close> its closure holds. The closure also holds the room object; the model finds
  that object again under \<open>roomCode\<close> in the registry.
\<close>

datatype timer_kind = BroadcastLoop | RaceTimeout

record state =
  rooms :: "(string \<times> room) list"
  timers :: "(nat \<times> timer_kind \<times> string) list"
  nextHandle :: nat
  outbox :: "(target \<times> msg) list"

definition init :: state where
  "init = \<lparr>rooms = [], timers = [], nextHandle = 0, outbox = []\<rparr>"

subsection \<open>Helpers\<close>

definition COLOR_PALETTE :: "string list" where
  "COLOR_PALETTE =
    [''#C0C0C0'', ''#CC0000'', ''#1E3A8A'', ''#B8860B'', ''#F5F5F5'',
     ''#4A4A4A'', ''#006B4F'', ''#FF6B35'', ''#7B2D8B'', ''#00A8CC'',
     ''#8B4513'', ''#FF1493'', ''#888888'', ''#FFD700'', ''#00CED1'', ''#DC143C'']"

definition CAR_MODELS :: "string list" where
  "CAR_MODELS = [''a-class'', ''cla'', ''amg-gt'', ''300sl'', ''amg-gtr'', ''c-class'']"

text \<open>
  \<open>generateRoomCode\<close> draws from \<open>nanoid()\<close> until the code is not a key of the registry.
  The draws are the list \<open>draws\<close>; \<open>None\<close> says the loop has not returned within them.
  \<open>nanoid\<close> makes its codes of the characters of \<open>ROOM_CODE_ALPHABET\<close>.
\<close>

definition ROOM_CODE_ALPHABET :: string where
  "ROOM_CODE_ALPHABET = ''ABCDEFGHJKLMNPQRSTUVWXYZ23456789''"

fun generateRoomCode :: "(string \<times> room) list \<Rightarrow> string list \<Rightarrow> string option" where
  "generateRoomCode rs [] = None"
| "generateRoomCode rs (c # cs) =
     (if map_of rs c \<noteq> None then generateRoomCode rs cs else Some c)"

text \<open>
  White space, as \<open>trim\<close> strips it, among the ASCII characters: tab, line feed,
  vertical tab, form feed, carriage return and space.
\<close>

definition is_space :: "char \<Rightarrow> bool" where
  "is_space c = (c \<in> set [CHR 0x09, CHR 0x0A, CHR 0x0B, CHR 0x0C, CHR 0x0D, CHR 0x20])"

definition trim :: "String.literal \<Rightarrow> string" where
  "trim s = rev (dropWhile is_space (rev (dropWhile is_space (String.explode s))))"

text \<open>\<open>None\<close> is a payload field that is not a string.\<close>

definition sanitize :: "String.literal option \<Rightarrow> string" where
  "sanitize str =
     (case str of None \<Rightarrow> []
      | Some s \<Rightarrow> filter (\<lambda>c. c \<notin> set [CHR ''<'', CHR ''>'', CHR ''&'', CHR 0x22, CHR 0x27])
                    (take 20 (trim s)))"

definition safeModel :: "String.literal option \<Rightarrow> string" where
  "safeModel model =
     (case model of None \<Rightarrow> ''a-class''
      | Some m \<Rightarrow> if String.explode m \<in> set CAR_MODELS then String.explode m else ''a-class'')"

definition getNextColor :: "room \<Rightarrow> string" where
  "getNextColor room =
     (let usedColors = set (map (carColor \<circ> snd) (players room))
      in case find (\<lambda>c. c \<notin> usedColors) COLOR_PALETTE of
           Some c \<Rightarrow> c
         | None \<Rightarrow> COLOR_PALETTE ! (length (players room) mod length COLOR_PALETTE))"

definition serializePlayer :: "player \<Rightarrow> player_view" where
  "serializePlayer p =
     PlayerView (socketId p) (name p) (carModel p) (carColor p) (progress p) (rank p)
       (dnf p) (disconnected p)"

text \<open>The player object literal of \<open>create-room\<close>, \<open>join-room\<close> and \<open>rejoin-room\<close>.\<close>

definition new_player :: "string \<Rightarrow> String.literal option \<Rightarrow> String.literal option \<Rightarrow> string \<Rightarrow> player" where
  "new_player sid nm model color =
     \<lparr>socketId = sid,
      name = (if sanitize nm = [] then ''Driver'' else sanitize nm),
      carModel = safeModel model,
      carColor = color,
      progress = 0, clickCount = 0, lastClickTime = 0,
      finishedAt = None, rank = None, dnf = False, disconnected = False\<rparr>"

text \<open>
  \<open>findRoomBySocket\<close> returns the first room, in insertion order, that has the socket.
  The model returns the registry key with it, to write the mutated room back where it
  stands.
\<close>

definition findRoomBySocket :: "string \<Rightarrow> (string \<times> room) list \<Rightarrow> (string \<times> room) option" where
  "findRoomBySocket sid rs = find (\<lambda>(k, room). map_of (players room) sid \<noteq> None) rs"

text \<open>
  JavaScript truthiness of a \<open>finishedAt\<close> that is \<open>null\<close> or a number, and the number a
  \<open>null\<close> becomes in a subtraction.
\<close>

definition truthy :: "int option \<Rightarrow> bool" where
  "truthy t = (case t of None \<Rightarrow> False | Some n \<Rightarrow> n \<noteq> 0)"

definition rankNum :: "player \<Rightarrow> nat" where
  "rankNum p = (case rank p of None \<Rightarrow> 0 | Some r \<Rightarrow> r)"

definition sinceStart :: "int \<Rightarrow> int option \<Rightarrow> int" where
  "sinceStart now started = (case started of None \<Rightarrow> now | Some t \<Rightarrow> now - t)"

definition emit :: "target \<Rightarrow> msg \<Rightarrow> state \<Rightarrow> state" where
  "emit t m st = st\<lparr>outbox := outbox st @ [(t, m)]\<rparr>"

text \<open>\<open>clearInterval\<close> and \<open>clearTimeout\<close>: a \<open>null\<close> or stale handle clears nothing.\<close>

definition clearTimer :: "nat option \<Rightarrow> (nat \<times> timer_kind \<times> string) list \<Rightarrow> (nat \<times> timer_kind \<times> string) list" where
  "clearTimer h ts = (case h of None \<Rightarrow> ts | Some i \<Rightarrow> filter (\<lambda>t. fst t \<noteq> i) ts)"

subsection \<open>Ending a race\<close>

text \<open>\<open>unfinished.forEach(p => { p.rank = ++rank; p.dnf = true; })\<close>\<close>

fun assignRanks :: "nat \<Rightarrow> (string \<times> player) list \<Rightarrow> (string \<times> player) list" where
  "assignRanks r [] = []"
| "assignRanks r ((k, p) # ps) = (k, p\<lparr>rank := Some (r + 1), dnf := True\<rparr>) # assignRanks (r + 1) ps"

text \<open>
  \<open>Array.prototype.sort\<close> is stable, as is \<open>sort_key\<close>. The unfinished players are
  mutated in place, so the room's map holds the ranked objects afterwards.
\<close>

definition finishedPlayers :: "room \<Rightarrow> (string \<times> player) list" where
  "finishedPlayers room =
     sort_key (rankNum \<circ> snd) (filter (\<lambda>kp. truthy (finishedAt (snd kp))) (players room))"

definition unfinishedPlayers :: "room \<Rightarrow> (string \<times> player) list" where
  "unfinishedPlayers room =
     assignRanks (length (finishedPlayers room))
       (sort_key (\<lambda>kp. - int (progress (snd kp)))
          (filter (\<lambda>kp. \<not> truthy (finishedAt (snd kp))) (players room)))"

definition buildResultsArray :: "room \<Rightarrow> room \<times> player_view list" where
  "buildResultsArray room =
     (let finished = finishedPlayers room;
          unfinished = unfinishedPlayers room
      in (room\<lparr>players :=
                 map (\<lambda>(k, p). case map_of unfinished k of None \<Rightarrow> (k, p) | Some p' \<Rightarrow> (k, p'))
                   (players room)\<rparr>,
          map (serializePlayer \<circ> snd) (finished @ unfinished)))"

text \<open>
  \<open>endRace(room, roomCode)\<close>: \<open>k\<close> is the registry key the room object stands under,
  \<open>roomCode\<close> the room the result is sent to.
\<close>

definition endRace :: "string \<Rightarrow> string \<Rightarrow> state \<Rightarrow> state" where
  "endRace k roomCode st =
     (case map_of (rooms st) k of
        None \<Rightarrow> st
      | Some room \<Rightarrow>
          if phase room = Finished then st
          else
            let (room', results) = buildResultsArray (room\<lparr>phase := Finished\<rparr>)
            in st\<lparr>rooms := AList.update k room' (rooms st),
                  timers := clearTimer (raceTimeout room) (clearTimer (broadcastInterval room) (timers st)),
                  outbox := outbox st @ [(ToRoom roomCode, RaceFinished results)]\<rparr>)"

definition checkAllFinished :: "string \<Rightarrow> string \<Rightarrow> state \<Rightarrow> state" where
  "checkAllFinished k roomCode st =
     (case map_of (rooms st) k of
        None \<Rightarrow> st
      | Some room \<Rightarrow>
          let activePlayers = filter (\<lambda>p. \<not> disconnected p) (map snd (players room));
              allDone = list_all (\<lambda>p. truthy (finishedAt p)) activePlayers
          in if allDone then endRace k roomCode st else st)"

subsection \<open>Leaving\<close>

definition handleDisconnect :: "string \<Rightarrow> state \<Rightarrow> state" where
  "handleDisconnect sid st =
     (case findRoomBySocket sid (rooms st) of
        None \<Rightarrow> st
      | Some (k, room) \<Rightarrow>
          let roomCode = code room in
          (case map_of (players room) sid of
             None \<Rightarrow> st
           | Some player \<Rightarrow>
               if phase room = Lobby then
                 let ps = AList.delete sid (players room);
                     migrate = (hostSocketId room = sid \<and> length ps > 0);
                     newHostId = (if migrate then Some (fst (hd ps)) else None);
                     room' = room\<lparr>players := ps,
                                  hostSocketId := (if migrate then fst (hd ps) else hostSocketId room)\<rparr>
                 in if length ps = 0
                    then st\<lparr>rooms := AList.delete roomCode (AList.update k room' (rooms st))\<rparr>
                    else emit (ToRoom roomCode) (PlayerLeft sid newHostId)
                           (st\<lparr>rooms := AList.update k room' (rooms st)\<rparr>)
               else if phase room = Racing then
                 let ps = AList.update sid (player\<lparr>disconnected := True\<rparr>) (players room);
                     found = (if hostSocketId room = sid \<and> length ps > 0
                              then find (\<lambda>i. case map_of ps i of None \<Rightarrow> False | Some p \<Rightarrow> \<not> disconnected p)
                                     (map fst ps)
                              else None);
                     next = (case found of None \<Rightarrow> None | Some i \<Rightarrow> if i = [] then None else Some i);
                     room' = room\<lparr>players := ps,
                                  hostSocketId := (case next of None \<Rightarrow> hostSocketId room | Some i \<Rightarrow> i)\<rparr>
                 in checkAllFinished k roomCode
                      (emit (ToRoom roomCode) (PlayerLeft sid next)
                         (st\<lparr>rooms := AList.update k room' (rooms st)\<rparr>))
               else
                 let ps = AList.delete sid (players room);
                     room' = room\<lparr>players := ps\<rparr>
                 in if length ps = 0
                    then st\<lparr>rooms := AList.delete roomCode (AList.update k room' (rooms st))\<rparr>
                    else st\<lparr>rooms := AList.update k room' (rooms st)\<rparr>))"

subsection \<open>The message handlers\<close>

text \<open>
  \<open>String.prototype.toUpperCase\<close> on ASCII text: the letters a to z (97 to 122) move to
  A to Z, every other ASCII character stays.
\<close>

definition upper_char :: "char \<Rightarrow> char" where
  "upper_char c =
     (let n = (of_char c :: nat) in if 97 \<le> n \<and> n \<le> 122 then char_of (n - 32) else c)"

definition toUpperCase :: "String.literal \<Rightarrow> String.literal" where
  "toUpperCase s = String.implode (map upper_char (String.explode s))"

text \<open>
  \<open>(code || '').toUpperCase()\<close>, as the key looked up in the registry; \<open>None\<close> is a
  missing \<open>code\<close> field.
\<close>

definition normalizeCode :: "String.literal option \<Rightarrow> string" where
  "normalizeCode c = String.explode (toUpperCase (case c of None \<Rightarrow> STR '''' | Some s \<Rightarrow> s))"

definition create_room :: "string \<Rightarrow> String.literal option \<Rightarrow> String.literal option \<Rightarrow> int \<Rightarrow> string list \<Rightarrow> state \<Rightarrow> state option" where
  "create_room sid nm model now draws st =
     (case generateRoomCode (rooms st) draws of
        None \<Rightarrow> None
      | Some c \<Rightarrow>
          let player = new_player sid nm model (COLOR_PALETTE ! 0);
              room = \<lparr>code = c, hostSocketId = sid, phase = Lobby,
                      players = [(sid, player)], createdAt = now, raceStartedAt = None,
                      finishedCount = 0, broadcastInterval = None, raceTimeout = None\<rparr>
          in Some (emit (ToSocket sid) (RoomCreated c (serializePlayer player))
                     (st\<lparr>rooms := AList.update c room (rooms st)\<rparr>)))"

definition join_room :: "string \<Rightarrow> String.literal option \<Rightarrow> String.literal option \<Rightarrow> String.literal option \<Rightarrow> state \<Rightarrow> state" where
  "join_room sid c nm model st =
     (case map_of (rooms st) (normalizeCode c) of
        None \<Rightarrow> emit (ToSocket sid) (JoinError ''Room not found. Check the code and try again.'') st
      | Some room \<Rightarrow>
          if phase room \<noteq> Lobby
          then emit (ToSocket sid) (JoinError ''This race has already started. Wait for the next round.'') st
          else if length (players room) \<ge> 16
          then emit (ToSocket sid) (JoinError ''Room is full (max 16 players).'') st
          else
            let player = new_player sid nm model (getNextColor room);
                room' = room\<lparr>players := AList.update sid player (players room)\<rparr>
            in emit (ToRoomExcept (code room') sid) (PlayerJoined (serializePlayer player))
                 (emit (ToSocket sid)
                    (RoomJoined (code room') (hostSocketId room')
                       (map (serializePlayer \<circ> snd) (players room')) None)
                    (st\<lparr>rooms := AList.update (normalizeCode c) room' (rooms st)\<rparr>)))"

definition rejoin_room :: "string \<Rightarrow> String.literal option \<Rightarrow> String.literal option \<Rightarrow> String.literal option \<Rightarrow> state \<Rightarrow> state" where
  "rejoin_room sid c nm model st =
     (case map_of (rooms st) (normalizeCode c) of
        None \<Rightarrow> emit (ToSocket sid) (RejoinFailed ''Room no longer exists.'') st
      | Some room \<Rightarrow>
          let player = new_player sid nm model (getNextColor room);
              room' = room\<lparr>players := AList.update sid player (players room)\<rparr>
          in emit (ToRoomExcept (code room') sid) (PlayerJoined (serializePlayer player))
               (emit (ToSocket sid)
                  (RoomJoined (code room') (hostSocketId room')
                     (map (serializePlayer \<circ> snd) (players room')) (Some (phase room')))
                  (st\<lparr>rooms := AList.update (normalizeCode c) room' (rooms st)\<rparr>)))"

text \<open>
  \<open>start-race\<close> reads the clock twice: \<open>t1\<close> for \<open>raceStartedAt\<close>, \<open>t2\<close> for the
  \<open>startTime\<close> it announces. \<open>setInterval\<close> and \<open>setTimeout\<close> return fresh handles.
\<close>

definition start_race :: "string \<Rightarrow> string \<Rightarrow> int \<Rightarrow> int \<Rightarrow> state \<Rightarrow> state" where
  "start_race sid roomCode t1 t2 st =
     (case map_of (rooms st) roomCode of
        None \<Rightarrow> st
      | Some room \<Rightarrow>
          if hostSocketId room \<noteq> sid then st
          else if phase room \<noteq> Lobby then st
          else if length (players room) < 1
          then emit (ToSocket sid) (StartError ''Need at least 1 player to start the race.'') st
          else
            let startTime = t2 + 3500;
                h = nextHandle st;
                room' = room\<lparr>phase := Racing, raceStartedAt := Some t1, finishedCount := 0,
                             broadcastInterval := Some h, raceTimeout := Some (h + 1)\<rparr>
            in emit (ToRoom roomCode) (RaceStarted startTime)
                 (st\<lparr>rooms := AList.update roomCode room' (rooms st),
                     timers := timers st @ [(h, BroadcastLoop, roomCode), (h + 1, RaceTimeout, roomCode)],
                     nextHandle := h + 2\<rparr>))"

definition click :: "string \<Rightarrow> string \<Rightarrow> int \<Rightarrow> state \<Rightarrow> state" where
  "click sid roomCode now st =
     (case map_of (rooms st) roomCode of
        None \<Rightarrow> st
      | Some room \<Rightarrow>
          if phase room \<noteq> Racing then st
          else
            (case map_of (players room) sid of
               None \<Rightarrow> st
             | Some player \<Rightarrow>
                 if truthy (finishedAt player) \<or> disconnected player then st
                 else if now - lastClickTime player < 50 then st
                 else
                   let player1 = player\<lparr>lastClickTime := now,
                                        clickCount := min 100 (clickCount player + 1),
                                        progress := min 100 (clickCount player + 1)\<rparr>
                   in if clickCount player1 \<ge> 100 \<and> \<not> truthy (finishedAt player1)
                      then
                        let r = finishedCount room + 1;
                            player2 = player1\<lparr>finishedAt := Some now, rank := Some r\<rparr>;
                            room' = room\<lparr>finishedCount := r,
                                         players := AList.update sid player2 (players room)\<rparr>
                        in checkAllFinished roomCode roomCode
                             (emit (ToRoom roomCode)
                                (PlayerFinished sid r (sinceStart now (raceStartedAt room')))
                                (st\<lparr>rooms := AList.update roomCode room' (rooms st)\<rparr>))
                      else
                        st\<lparr>rooms :=
                             AList.update roomCode
                               (room\<lparr>players := AList.update sid player1 (players room)\<rparr>)
                               (rooms st)\<rparr>))"

definition resetPlayer :: "player \<Rightarrow> player" where
  "resetPlayer p =
     p\<lparr>progress := 0, clickCount := 0, lastClickTime := 0, finishedAt := None,
       rank := None, dnf := False, disconnected := False\<rparr>"

definition reset_room :: "string \<Rightarrow> string \<Rightarrow> state \<Rightarrow> state" where
  "reset_room sid roomCode st =
     (case map_of (rooms st) roomCode of
        None \<Rightarrow> st
      | Some room \<Rightarrow>
          if hostSocketId room \<noteq> sid then st
          else
            let room' = room\<lparr>phase := Lobby, raceStartedAt := None, finishedCount := 0,
                             players := map (\<lambda>(k, p). (k, resetPlayer p)) (players room)\<rparr>
            in emit (ToRoom roomCode)
                 (RoomReset (map (serializePlayer \<circ> snd) (players room')) (hostSocketId room'))
                 (st\<lparr>rooms := AList.update roomCode room' (rooms st),
                     timers := clearTimer (raceTimeout room)
                                 (clearTimer (broadcastInterval room) (timers st))\<rparr>))"

subsection \<open>The timer callbacks\<close>

text \<open>
  A callback runs only while its timer is live. A fired \<open>setTimeout\<close> is gone; a
  \<open>setInterval\<close> stays until it is cleared. In every reachable state the room of a
  live timer is registered under the timer's code (\<open>timer_ok\<close> below), so the lookup
  finds the object the closure holds.
\<close>

definition broadcast_tick :: "nat \<Rightarrow> state \<Rightarrow> state" where
  "broadcast_tick h st =
     (case map_of (timers st) h of
        Some (BroadcastLoop, roomCode) \<Rightarrow>
          (case map_of (rooms st) roomCode of
             None \<Rightarrow> st
           | Some room \<Rightarrow>
               if phase room \<noteq> Racing
               then st\<lparr>timers := clearTimer (broadcastInterval room) (timers st)\<rparr>
               else emit (ToRoom roomCode)
                      (ProgressUpdate (map (\<lambda>p. (socketId p, progress p)) (map snd (players room))))
                      st)
      | _ \<Rightarrow> st)"

definition race_timeout :: "nat \<Rightarrow> state \<Rightarrow> state" where
  "race_timeout h st =
     (case map_of (timers st) h of
        Some (RaceTimeout, roomCode) \<Rightarrow>
          (let st1 = st\<lparr>timers := filter (\<lambda>t. fst t \<noteq> h) (timers st)\<rparr>
           in case map_of (rooms st1) roomCode of
                None \<Rightarrow> st1
              | Some room \<Rightarrow> if phase room \<noteq> Racing then st1 else endRace roomCode roomCode st1)
      | _ \<Rightarrow> st)"

definition TWO_HOURS :: int where
  "TWO_HOURS = 2 * 60 * 60 * 1000"

text \<open>
  The sweep reads the clock anew for every room it looks at: \<open>now c\<close> is the reading
  taken when the loop is at the room under \<open>c\<close>.
\<close>

fun sweepRooms :: "(string \<Rightarrow> int) \<Rightarrow> (string \<times> room) list \<Rightarrow> state \<Rightarrow> state" where
  "sweepRooms now [] st = st"
| "sweepRooms now ((c, room) # rs) st =
     sweepRooms now rs
       (if now c - createdAt room > TWO_HOURS
        then st\<lparr>timers := clearTimer (raceTimeout room) (clearTimer (broadcastInterval room) (timers st)),
                rooms := AList.delete c (rooms st)\<rparr>
        else st)"

definition ttl_sweep :: "(string \<Rightarrow> int) \<Rightarrow> state \<Rightarrow> state" where
  "ttl_sweep now st = sweepRooms now (rooms st) st"

subsection \<open>Runs of the server\<close>

datatype event =
    CreateRoom string "String.literal option" "String.literal option" int "string list"
  | JoinRoom string "String.literal option" "String.literal option" "String.literal option"
  | RejoinRoom string "String.literal option" "String.literal option" "String.literal option"
  | StartRace string string int int
  | Click string string int
  | ResetRoom string string
  | LeaveRoom string
  | Disconnect string
  | BroadcastTick nat
  | RaceTimeoutFires nat
  | TtlSweep "string \<Rightarrow> int"

fun step :: "event \<Rightarrow> state \<Rightarrow> state option" where
  "step (CreateRoom sid nm model now draws) st = create_room sid nm model now draws st"
| "step (JoinRoom sid c nm model) st = Some (join_room sid c nm model st)"
| "step (RejoinRoom sid c nm model) st = Some (rejoin_room sid c nm model st)"
| "step (StartRace sid roomCode t1 t2) st = Some (start_race sid roomCode t1 t2 st)"
| "step (Click sid roomCode now) st = Some (click sid roomCode now st)"
| "step (ResetRoom sid roomCode) st = Some (reset_room sid roomCode st)"
| "step (LeaveRoom sid) st = Some (handleDisconnect sid st)"
| "step (Disconnect sid) st = Some (handleDisconnect sid st)"
| "step (BroadcastTick h) st = Some (broadcast_tick h st)"
| "step (RaceTimeoutFires h) st = Some (race_timeout h st)"
| "step (TtlSweep now) st = Some (ttl_sweep now st)"

fun run :: "event list \<Rightarrow> state \<Rightarrow> state option" where
  "run [] st = Some st"
| "run (e # es) st = (case step e st of None \<Rightarrow> None | Some st' \<Rightarrow> run es st')"

text \<open>Reading a run: the room under a code, who is in it, and what was sent.\<close>

definition roomAt :: "string \<Rightarrow> state \<Rightarrow> room option" where
  "roomAt k st = map_of (rooms st) k"

definition after :: "event list \<Rightarrow> string \<Rightarrow> room option" where
  "after es k = Option.bind (run es init) (roomAt k)"

definition memberIds :: "room \<Rightarrow> string list" where
  "memberIds room = map fst (players room)"

definition memberRanks :: "room \<Rightarrow> nat option list" where
  "memberRanks room = map (rank \<circ> snd) (players room)"

definition sent :: "state \<Rightarrow> string list" where
  "sent st = map (event_name \<circ> snd) (outbox st)"


text \<open>\<open>n\<close> clicks of one socket, 50ms apart, the first at \<open>t0\<close>.\<close>

definition clicks :: "string \<Rightarrow> string \<Rightarrow> int \<Rightarrow> nat \<Rightarrow> event list" where
  "clicks sid roomCode t0 n = map (\<lambda>i. Click sid roomCode (t0 + 50 * int i)) [0..<n]"

subsection \<open>Invariants of the reachable states\<close>

text \<open>
  What every handler keeps true of a player, a room and a timer: progress mirrors the
  click counter, accepted clicks and finish times are at least 50ms after the epoch, a
  room stands under its own code with one entry per socket, a lobby room has no race
  data, and a live timer belongs to a racing room that holds its handle.
\<close>

definition player_ok :: "player \<Rightarrow> bool" where
  "player_ok p \<longleftrightarrow>
     progress p = clickCount p \<and> clickCount p \<le> 100 \<and> 0 \<le> lastClickTime p \<and>
     (case finishedAt p of None \<Rightarrow> True | Some t \<Rightarrow> 50 \<le> t)"

definition room_ok :: "string \<Rightarrow> room \<Rightarrow> bool" where
  "room_ok k r \<longleftrightarrow>
     code r = k \<and> distinct (map fst (players r)) \<and> list_all (\<lambda>kp. player_ok (snd kp)) (players r) \<and>
     (phase r = Lobby \<longrightarrow>
        raceStartedAt r = None \<and> finishedCount r = 0 \<and>
        list_all (\<lambda>kp. resetPlayer (snd kp) = snd kp) (players r))"

definition timer_ok :: "(string \<times> room) list \<Rightarrow> nat \<times> timer_kind \<times> string \<Rightarrow> bool" where
  "timer_ok rs t =
     (case t of (h, kind, c) \<Rightarrow>
        (case map_of rs c of
           None \<Rightarrow> False
         | Some r \<Rightarrow>
             phase r = Racing \<and>
             (case kind of BroadcastLoop \<Rightarrow> broadcastInterval r = Some h
                         | RaceTimeout \<Rightarrow> raceTimeout r = Some h)))"

definition invariant :: "state \<Rightarrow> bool" where
  "invariant st \<longleftrightarrow>
     distinct (map fst (rooms st)) \<and>
     list_all (\<lambda>kr. room_ok (fst kr) (snd kr)) (rooms st) \<and>
     list_all (timer_ok (rooms st)) (timers st)"

text \<open>The player after an accepted click, and a list of clicks as events.\<close>

definition clicked :: "int \<Rightarrow> player \<Rightarrow> player" where
  "clicked now p = p\<lparr>lastClickTime := now, clickCount := min 100 (clickCount p + 1),
                     progress := min 100 (clickCount p + 1)\<rparr>"

definition clickEvents :: "(string \<times> string \<times> int) list \<Rightarrow> event list" where
  "clickEvents cs = map (\<lambda>(sid, roomCode, now). Click sid roomCode now) cs"

text \<open>
  The finished players of a racing room hold the ranks 1 to \<open>finishedCount\<close>. For the
  room under a code this holds along a run that begins where the room is not racing, as
  long as no rejoin-room replaces the record of a player who has finished the race the
  room is running.
\<close>

definition isFinished :: "string \<times> player \<Rightarrow> bool" where
  "isFinished kp = truthy (finishedAt (snd kp))"

definition ranks_ok :: "room \<Rightarrow> bool" where
  "ranks_ok r \<longleftrightarrow>
     (phase r = Racing \<longrightarrow>
        mset (map (rankNum \<circ> snd) (filter isFinished (players r))) = mset [1..<Suc (finishedCount r)])"

definition ranks_at :: "string \<Rightarrow> state \<Rightarrow> bool" where
  "ranks_at k st = (case map_of (rooms st) k of None \<Rightarrow> True | Some r \<Rightarrow> ranks_ok r)"




subsection \<open>The end of a race\<close>

text \<open>
  The test of \<open>checkAllFinished\<close>: every player who is not disconnected has finished.
  \<open>othersDone sid room\<close>: every player but \<open>sid\<close> is disconnected or has finished, so
  that the race ends when \<open>sid\<close> finishes or leaves. \<open>raceOver k st\<close>: the room under
  \<open>k\<close> is finished and no timer is live for it. \<open>timersIdle room st\<close>: the race
  timeout and the broadcast tick under the handles the room holds leave the state as it
  is.
\<close>

definition allActiveFinished :: "room \<Rightarrow> bool" where
  "allActiveFinished room =
     list_all (\<lambda>p. truthy (finishedAt p)) (filter (\<lambda>p. \<not> disconnected p) (map snd (players room)))"

definition othersDone :: "string \<Rightarrow> room \<Rightarrow> bool" where
  "othersDone sid room =
     list_all (\<lambda>kp. fst kp = sid \<or> disconnected (snd kp) \<or> truthy (finishedAt (snd kp))) (players room)"

definition raceOver :: "string \<Rightarrow> state \<Rightarrow> bool" where
  "raceOver k st =
     ((case map_of (rooms st) k of None \<Rightarrow> False | Some r \<Rightarrow> phase r = Finished) \<and>
      k \<notin> set (map (snd \<circ> snd) (timers st)))"

definition timersIdle :: "room \<Rightarrow> state \<Rightarrow> bool" where
  "timersIdle room st =
     ((case raceTimeout room of None \<Rightarrow> True | Some h \<Rightarrow> race_timeout h st = st) \<and>
      (case broadcastInterval room of None \<Rightarrow> True | Some h \<Rightarrow> broadcast_tick h st = st))"

subsection \<open>The rooms a connection is in\<close>

text \<open>
  \<open>memberOf sid k st\<close>: the connection is a player key of the room under \<open>k\<close>. A
  message enters a second room when it adds its sender to a room while the sender is a
  player key of another one: a create-room from a connection that is in a room, a
  join-room that gets past the checks or a rejoin-room that finds its room, from a
  connection that is in a room other than the one named. \<open>oneRoomAtATime\<close> are the runs
  without such a message.
\<close>

definition memberOf :: "string \<Rightarrow> string \<Rightarrow> state \<Rightarrow> bool" where
  "memberOf sid k st =
     (case map_of (rooms st) k of None \<Rightarrow> False | Some r \<Rightarrow> map_of (players r) sid \<noteq> None)"




subsection \<open>Spellings of a room code\<close>

text \<open>
  The lowercase and uppercase form of each letter, as a table. Two characters are the
  same letter when they are equal or one is the other case of the other; a spelling is
  a case variant of a code when it has the same letters, position by position.
\<close>

definition LETTER_CASES :: "(char \<times> char) list" where
  "LETTER_CASES = zip ''abcdefghijklmnopqrstuvwxyz'' ''ABCDEFGHIJKLMNOPQRSTUVWXYZ''"

definition sameLetter :: "char \<Rightarrow> char \<Rightarrow> bool" where
  "sameLetter a b \<longleftrightarrow> a = b \<or> (a, b) \<in> set LETTER_CASES \<or> (b, a) \<in> set LETTER_CASES"

definition caseVariant :: "string \<Rightarrow> string \<Rightarrow> bool" where
  "caseVariant s k = list_all2 sameLetter s k"

text \<open>
  \<open>nanoid\<close> draws every code from its alphabet: the create-room messages whose draws
  are such codes, and the states in which every registered code is one.
\<close>

definition nanoidDraws :: "event \<Rightarrow> bool" where
  "nanoidDraws e =
     (case e of
        CreateRoom sid nm model now draws \<Rightarrow>
          list_all (list_all (\<lambda>c. c \<in> set ROOM_CODE_ALPHABET)) draws
      | _ \<Rightarrow> True)"

definition codesFromAlphabet :: "state \<Rightarrow> bool" where
  "codesFromAlphabet st =
     list_all (\<lambda>kr. list_all (\<lambda>c. c \<in> set ROOM_CODE_ALPHABET) (fst kr)) (rooms st)"

subsection \<open>Rooms in the registry\<close>

text \<open>
  The messages that take the room under \<open>k\<close> out of the registry: a leave-room or
  disconnect of a connection whose room is \<open>k\<close>, when the room is not racing and has no
  other player, and a TTL sweep more than two hours after the room was created.
  \<open>keepsRoom\<close> are the runs without one.
\<close>

definition registered :: "string \<Rightarrow> state \<Rightarrow> bool" where
  "registered k st = (map_of (rooms st) k \<noteq> None)"

definition emptiesRoom :: "string \<Rightarrow> string \<Rightarrow> state \<Rightarrow> bool" where
  "emptiesRoom k sid st =
     (case findRoomBySocket sid (rooms st) of
        None \<Rightarrow> False
      | Some (k', room) \<Rightarrow>
          k' = k \<and> phase room \<noteq> Racing \<and> list_all (\<lambda>kp. fst kp = sid) (players room))"

definition removesRoom :: "string \<Rightarrow> event \<Rightarrow> state \<Rightarrow> bool" where
  "removesRoom k e st =
     (case e of
        LeaveRoom sid \<Rightarrow> emptiesRoom k sid st
      | Disconnect sid \<Rightarrow> emptiesRoom k sid st
      | TtlSweep now \<Rightarrow>
          (case map_of (rooms st) k of None \<Rightarrow> False | Some room \<Rightarrow> now k - createdAt room > TWO_HOURS)
      | _ \<Rightarrow> False)"

fun keepsRoom :: "string \<Rightarrow> event list \<Rightarrow> state \<Rightarrow> bool" where
  "keepsRoom k [] st = True"
| "keepsRoom k (e # es) st =
     (\<not> removesRoom k e st \<and>
      (case step e st of None \<Rightarrow> True | Some st' \<Rightarrow> keepsRoom k es st'))"

subsection \<open>Example runs\<close>

definition stateAfter :: "event list \<Rightarrow> state" where
  "stateAfter es = (case run es init of None \<Rightarrow> init | Some st \<Rightarrow> st)"

text \<open>A creates a room and starts the race alone; or B joins first.\<close>

definition raceOfOne :: "event list" where
  "raceOfOne = [CreateRoom ''A'' None None 0 [''ROOM01''], StartRace ''A'' ''ROOM01'' 1000 1000]"

definition raceOfTwo :: "event list" where
  "raceOfTwo = [CreateRoom ''A'' None None 0 [''ROOM01''], JoinRoom ''B'' (Some (STR ''room01'')) None None,
                StartRace ''A'' ''ROOM01'' 1000 1000]"

definition lobbyRoomOfOne :: room where
  "lobbyRoomOfOne =
     \<lparr>code = ''ROOM01'', hostSocketId = ''A'', phase = Lobby,
      players = [(''A'', new_player ''A'' None None ''#C0C0C0'')],
      createdAt = 0, raceStartedAt = None, finishedCount = 0,
      broadcastInterval = None, raceTimeout = None\<rparr>"

definition racingRoomOfOne :: room where
  "racingRoomOfOne =
     \<lparr>code = ''ROOM01'', hostSocketId = ''A'', phase = Racing,
      players = [(''A'', new_player ''A'' None None ''#C0C0C0'')],
      createdAt = 0, raceStartedAt = Some 1000, finishedCount = 0,
      broadcastInterval = Some 0, raceTimeout = Some 1\<rparr>"

definition racingRoomOfTwo :: room where
  "racingRoomOfTwo =
     \<lparr>code = ''ROOM01'', hostSocketId = ''A'', phase = Racing,
      players = [(''A'', new_player ''A'' None None ''#C0C0C0''),
                 (''B'', new_player ''B'' None None ''#CC0000'')],
      createdAt = 0, raceStartedAt = Some 1000, finishedCount = 0,
      broadcastInterval = Some 0, raceTimeout = Some 1\<rparr>"

text \<open>The room of \<open>raceOfTwo\<close> after A's first 99 clicks, and after the race timed out.\<close>

definition lastLapRoom :: room where
  "lastLapRoom =
     \<lparr>code = ''ROOM01'', hostSocketId = ''A'', phase = Racing,
      players = [(''A'', (new_player ''A'' None None ''#C0C0C0'')
                          \<lparr>progress := 99, clickCount := 99, lastClickTime := 9900\<rparr>),
                 (''B'', new_player ''B'' None None ''#CC0000'')],
      createdAt = 0, raceStartedAt = Some 1000, finishedCount = 0,
      broadcastInterval = Some 0, raceTimeout = Some 1\<rparr>"

definition timedOutRoom :: room where
  "timedOutRoom =
     \<lparr>code = ''ROOM01'', hostSocketId = ''A'', phase = Finished,
      players = [(''A'', (new_player ''A'' None None ''#C0C0C0'')\<lparr>rank := Some 1, dnf := True\<rparr>),
                 (''B'', (new_player ''B'' None None ''#CC0000'')\<lparr>rank := Some 2, dnf := True\<rparr>)],
      createdAt = 0, raceStartedAt = Some 1000, finishedCount = 0,
      broadcastInterval = Some 0, raceTimeout = Some 1\<rparr>"

text \<open>The room of \<open>raceOfTwo\<close> after A's hundred clicks: A has finished first, B has not moved.\<close>

definition oneFinishedRoom :: room where
  "oneFinishedRoom =
     \<lparr>code = ''ROOM01'', hostSocketId = ''A'', phase = Racing,
      players = [(''A'', (new_player ''A'' None None ''#C0C0C0'')
                          \<lparr>progress := 100, clickCount := 100, lastClickTime := 9950,
                            finishedAt := Some 9950, rank := Some 1\<rparr>),
                 (''B'', new_player ''B'' None None ''#CC0000'')],
      createdAt = 0, raceStartedAt = Some 1000, finishedCount = 1,
      broadcastInterval = Some 0, raceTimeout = Some 1\<rparr>"

text \<open>The room of \<open>raceOfOne\<close> after A's first 99 clicks.\<close>

definition lastLapRoomOfOne :: room where
  "lastLapRoomOfOne =
     \<lparr>code = ''ROOM01'', hostSocketId = ''A'', phase = Racing,
      players = [(''A'', (new_player ''A'' None None ''#C0C0C0'')
                          \<lparr>progress := 99, clickCount := 99, lastClickTime := 9900\<rparr>)],
      createdAt = 0, raceStartedAt = Some 1000, finishedCount = 0,
      broadcastInterval = Some 0, raceTimeout = Some 1\<rparr>"





text \<open>
  What may follow once A has left the race nobody else was in: B rejoins and leaves
  again, C's join-room is refused, a sweep runs early.
\<close>

definition laterMessages :: "event list" where
  "laterMessages =
     [RejoinRoom ''B'' (Some (STR ''room01'')) None None, TtlSweep (\<lambda>c. 5000),
      JoinRoom ''C'' (Some (STR ''room01'')) None None, LeaveRoom ''B'']"

text \<open>A creates a room whose code is one that \<open>nanoid\<close> can draw.\<close>

definition createRace23 :: "event list" where
  "createRace23 = [CreateRoom ''A'' None None 0 [''RACE23'']]"

definition race23Lobby :: room where
  "race23Lobby =
     \<lparr>code = ''RACE23'', hostSocketId = ''A'', phase = Lobby,
      players = [(''A'', new_player ''A'' None None ''#C0C0C0'')],
      createdAt = 0, raceStartedAt = None, finishedCount = 0,
      broadcastInterval = None, raceTimeout = None\<rparr>"

section \<open>Lemmas\<close>

subsection \<open>Association lists, and what keeps the invariant\<close>

lemma invariant_init: "invariant init"
  by (simp add: invariant_def init_def)

lemma invariant_outbox [simp]: "invariant (st\<lparr>outbox := x\<rparr>) = invariant st"
  by (simp add: invariant_def)

lemma invariant_emit [simp]: "invariant (emit t m st) = invariant st"
  by (simp add: emit_def)

lemma invariant_nextHandle [simp]: "invariant (st\<lparr>nextHandle := x\<rparr>) = invariant st"
  by (simp add: invariant_def)

lemma in_set_updateD: "x \<in> set (AList.update k v al) \<Longrightarrow> x = (k, v) \<or> x \<in> set al"
  by (induction al) (auto split: if_splits)

lemma in_set_deleteD: "x \<in> set (AList.delete k al) \<Longrightarrow> x \<in> set al \<and> fst x \<noteq> k"
  by (induction al) (auto split: if_splits)

lemma list_all_update:
  "list_all P al \<Longrightarrow> P (k, v) \<Longrightarrow> list_all P (AList.update k v al)"
  by (auto simp: list_all_iff dest: in_set_updateD)

lemma list_all_delete:
  "list_all P al \<Longrightarrow> list_all P (AList.delete k al)"
  by (auto simp: list_all_iff dest: in_set_deleteD)

lemma room_lookup:
  "invariant st \<Longrightarrow> map_of (rooms st) k = Some r \<Longrightarrow> room_ok k r"
  by (auto simp: invariant_def list_all_iff dest: map_of_SomeD)

lemma timer_lookup:
  "invariant st \<Longrightarrow> (h, kind, c) \<in> set (timers st) \<Longrightarrow>
     \<exists>r. map_of (rooms st) c = Some r \<and> phase r = Racing \<and>
         (kind = BroadcastLoop \<longrightarrow> broadcastInterval r = Some h) \<and>
         (kind = RaceTimeout \<longrightarrow> raceTimeout r = Some h)"
proof -
  assume "invariant st" "(h, kind, c) \<in> set (timers st)"
  then have "timer_ok (rooms st) (h, kind, c)"
    by (auto simp: invariant_def list_all_iff)
  then show ?thesis
    unfolding timer_ok_def by (cases kind) (simp_all split: option.splits)
qed

lemma timer_ok_other:
  "timer_ok rs t \<Longrightarrow> snd (snd t) \<noteq> k \<Longrightarrow> timer_ok (AList.update k r' rs) t"
  by (auto simp: timer_ok_def update_conv' split: option.splits prod.splits)

lemma timer_ok_same:
  "timer_ok rs t \<Longrightarrow> map_of rs k = Some r \<Longrightarrow>
     phase r' = phase r \<Longrightarrow> broadcastInterval r' = broadcastInterval r \<Longrightarrow> raceTimeout r' = raceTimeout r \<Longrightarrow>
     timer_ok (AList.update k r' rs) t"
  by (auto simp: timer_ok_def update_conv' split: option.splits prod.splits timer_kind.splits)

text \<open>A room changes but keeps its phase and its timer handles.\<close>

lemma inv_update_room:
  assumes "invariant st" "map_of (rooms st) k = Some r" "room_ok k r'"
    "phase r' = phase r" "broadcastInterval r' = broadcastInterval r" "raceTimeout r' = raceTimeout r"
  shows "invariant (st\<lparr>rooms := AList.update k r' (rooms st)\<rparr>)"
  using assms
  by (auto simp: invariant_def distinct_update list_all_iff dest!: in_set_updateD intro: timer_ok_same)

lemma clearTimer_subset: "x \<in> set (clearTimer h ts) \<Longrightarrow> x \<in> set ts"
  by (auto simp: clearTimer_def split: option.splits)

lemma clearTimer_gone: "(i, kd, c) \<in> set (clearTimer (Some i) ts) \<Longrightarrow> False"
  by (auto simp: clearTimer_def)

text \<open>A room leaves the racing phase (or was not in it) and its timers are cleared.\<close>

lemma inv_update_room_cleared:
  assumes "invariant st" "map_of (rooms st) k = Some r" "room_ok k r'" "phase r' \<noteq> Racing"
  shows "invariant (st\<lparr>rooms := AList.update k r' (rooms st),
                      timers := clearTimer (raceTimeout r) (clearTimer (broadcastInterval r) (timers st))\<rparr>)"
proof -
  have "timer_ok (AList.update k r' (rooms st)) t"
    if t: "t \<in> set (clearTimer (raceTimeout r) (clearTimer (broadcastInterval r) (timers st)))" for t
  proof -
    obtain h kd c where [simp]: "t = (h, kd, c)" by (cases t) auto
    from t have mem: "(h, kd, c) \<in> set (timers st)"
      by (auto dest: clearTimer_subset)
    from timer_lookup[OF assms(1) mem] obtain r0 where r0: "map_of (rooms st) c = Some r0"
      "phase r0 = Racing" "kd = BroadcastLoop \<longrightarrow> broadcastInterval r0 = Some h"
      "kd = RaceTimeout \<longrightarrow> raceTimeout r0 = Some h" by blast
    have "c \<noteq> k"
    proof
      assume "c = k"
      with r0 assms(2) have "r0 = r" by simp
      with r0 t show False
        by (cases kd) (auto simp: clearTimer_def split: option.splits)
    qed
    moreover have "timer_ok (rooms st) t"
      using assms(1) mem by (auto simp: invariant_def list_all_iff)
    ultimately show ?thesis by (auto intro: timer_ok_other)
  qed
  then show ?thesis
    using assms by (auto simp: invariant_def distinct_update list_all_iff dest!: in_set_updateD)
qed

lemma inv_filter_timers:
  "invariant st \<Longrightarrow> invariant (st\<lparr>timers := filter P (timers st)\<rparr>)"
  by (auto simp: invariant_def list_all_iff)

lemma inv_clearTimer:
  "invariant st \<Longrightarrow> invariant (st\<lparr>timers := clearTimer h (timers st)\<rparr>)"
  by (auto simp: invariant_def list_all_iff dest: clearTimer_subset)

text \<open>A room that is not racing is deleted.\<close>

lemma inv_delete_room:
  assumes "invariant st" "map_of (rooms st) k = Some r" "phase r \<noteq> Racing"
  shows "invariant (st\<lparr>rooms := AList.delete k (rooms st)\<rparr>)"
proof -
  have "timer_ok (AList.delete k (rooms st)) t" if t: "t \<in> set (timers st)" for t
  proof -
    obtain h kd c where [simp]: "t = (h, kd, c)" by (cases t) auto
    from timer_lookup[OF assms(1)] t obtain r0 where r0: "map_of (rooms st) c = Some r0"
      "phase r0 = Racing" by fastforce
    with assms have "c \<noteq> k" by auto
    moreover have "timer_ok (rooms st) t"
      using assms(1) t by (auto simp: invariant_def list_all_iff)
    ultimately show ?thesis
      by (auto simp: timer_ok_def delete_conv' split: option.splits)
  qed
  then show ?thesis
    using assms by (auto simp: invariant_def distinct_delete list_all_iff dest!: in_set_deleteD)
qed

lemma delete_update_same: "AList.delete k (AList.update k v al) = AList.delete k al"
  by (induction al) auto

subsection \<open>Rooms after a join and after a race\<close>

lemma player_ok_new [simp]: "player_ok (new_player sid nm model color)"
  by (simp add: player_ok_def new_player_def)

lemma resetPlayer_new [simp]: "resetPlayer (new_player sid nm model color) = new_player sid nm model color"
  by (simp add: resetPlayer_def new_player_def)

lemma player_ok_rank_dnf [simp]: "player_ok (p\<lparr>rank := x, dnf := y\<rparr>) = player_ok p"
  by (simp add: player_ok_def)

lemma player_ok_disconnected [simp]: "player_ok (p\<lparr>disconnected := y\<rparr>) = player_ok p"
  by (simp add: player_ok_def)

lemma player_ok_reset [simp]: "player_ok (resetPlayer p)"
  by (simp add: player_ok_def resetPlayer_def)

lemma resetPlayer_idem [simp]: "resetPlayer (resetPlayer p) = resetPlayer p"
  by (simp add: resetPlayer_def)

lemma assignRanks_mem:
  "(s, p') \<in> set (assignRanks n xs) \<Longrightarrow> \<exists>p m. (s, p) \<in> set xs \<and> p' = p\<lparr>rank := Some m, dnf := True\<rparr>"
  by (induction n xs rule: assignRanks.induct) auto

lemma assignRanks_keys [simp]: "map fst (assignRanks n xs) = map fst xs"
  by (induction n xs rule: assignRanks.induct) auto

lemma unfinishedPlayers_mem:
  "(s, p') \<in> set (unfinishedPlayers r) \<Longrightarrow>
     \<exists>p m. (s, p) \<in> set (players r) \<and> p' = p\<lparr>rank := Some m, dnf := True\<rparr>"
  unfolding unfinishedPlayers_def by (drule assignRanks_mem) auto

lemma buildResultsArray_keys [simp]:
  "map fst (players (fst (buildResultsArray r))) = map fst (players r)"
  by (auto simp: buildResultsArray_def Let_def split: option.splits)

lemma buildResultsArray_mem:
  assumes "(s, p') \<in> set (players (fst (buildResultsArray r)))"
  shows "\<exists>p x y. (s, p) \<in> set (players r) \<and> p' = p\<lparr>rank := x, dnf := y\<rparr>"
proof -
  from assms obtain p where p: "(s, p) \<in> set (players r)"
    and p': "p' = (case map_of (unfinishedPlayers r) s of None \<Rightarrow> p | Some q \<Rightarrow> q)"
    by (auto simp: buildResultsArray_def Let_def split: option.splits)
  show ?thesis
  proof (cases "map_of (unfinishedPlayers r) s")
    case None
    with p p' have "p' = p\<lparr>rank := rank p, dnf := dnf p\<rparr>" by simp
    with p show ?thesis by blast
  next
    case (Some q)
    then have "(s, q) \<in> set (unfinishedPlayers r)" by (rule map_of_SomeD)
    from unfinishedPlayers_mem[OF this] Some p' show ?thesis by auto
  qed
qed

lemma buildResultsArray_fields [simp]:
  "code (fst (buildResultsArray r)) = code r"
  "hostSocketId (fst (buildResultsArray r)) = hostSocketId r"
  "phase (fst (buildResultsArray r)) = phase r"
  "createdAt (fst (buildResultsArray r)) = createdAt r"
  "raceStartedAt (fst (buildResultsArray r)) = raceStartedAt r"
  "finishedCount (fst (buildResultsArray r)) = finishedCount r"
  "broadcastInterval (fst (buildResultsArray r)) = broadcastInterval r"
  "raceTimeout (fst (buildResultsArray r)) = raceTimeout r"
  by (simp_all add: buildResultsArray_def Let_def)

lemma room_ok_finish:
  assumes "room_ok k r"
  shows "room_ok k (fst (buildResultsArray (r\<lparr>phase := Finished\<rparr>)))"
proof -
  let ?r' = "fst (buildResultsArray (r\<lparr>phase := Finished\<rparr>))"
  have "player_ok p'" if "(s, p') \<in> set (players ?r')" for s p'
  proof -
    from buildResultsArray_mem[OF that] obtain p x y where
      "(s, p) \<in> set (players r)" "p' = p\<lparr>rank := x, dnf := y\<rparr>" by auto
    with assms show ?thesis by (auto simp: room_ok_def list_all_iff)
  qed
  moreover have "distinct (map fst (players ?r'))"
    using assms by (simp add: room_ok_def)
  ultimately show ?thesis
    using assms by (auto simp: room_ok_def list_all_iff)
qed

lemma endRace_unfold:
  "endRace k c st =
     (case map_of (rooms st) k of
        None \<Rightarrow> st
      | Some room \<Rightarrow>
          if phase room = Finished then st
          else st\<lparr>rooms := AList.update k (fst (buildResultsArray (room\<lparr>phase := Finished\<rparr>))) (rooms st),
                  timers := clearTimer (raceTimeout room) (clearTimer (broadcastInterval room) (timers st)),
                  outbox := outbox st @ [(ToRoom c, RaceFinished (snd (buildResultsArray (room\<lparr>phase := Finished\<rparr>))))]\<rparr>)"
  by (simp add: endRace_def Let_def case_prod_beta split: option.splits)

lemma inv_endRace:
  assumes inv: "invariant st"
  shows "invariant (endRace k c st)"
proof (cases "map_of (rooms st) k")
  case None
  then show ?thesis using inv by (simp add: endRace_unfold)
next
  case (Some room)
  show ?thesis
  proof (cases "phase room = Finished")
    case True
    with Some inv show ?thesis by (simp add: endRace_unfold)
  next
    case False
    have "invariant (st\<lparr>rooms := AList.update k (fst (buildResultsArray (room\<lparr>phase := Finished\<rparr>))) (rooms st),
            timers := clearTimer (raceTimeout room) (clearTimer (broadcastInterval room) (timers st))\<rparr>)"
      by (rule inv_update_room_cleared[OF inv Some])
         (use room_lookup[OF inv Some] in \<open>auto intro: room_ok_finish\<close>)
    then show ?thesis using Some False by (simp add: endRace_unfold invariant_def)
  qed
qed

lemma inv_checkAllFinished: "invariant st \<Longrightarrow> invariant (checkAllFinished k c st)"
  by (auto simp: checkAllFinished_def Let_def inv_endRace split: option.splits)

lemma generateRoomCode_fresh: "generateRoomCode rs draws = Some c \<Longrightarrow> map_of rs c = None"
  by (induction draws) (auto split: if_splits)

lemma inv_add_room:
  assumes "invariant st" "map_of (rooms st) k = None" "room_ok k r'"
  shows "invariant (st\<lparr>rooms := AList.update k r' (rooms st)\<rparr>)"
proof -
  have "timer_ok (AList.update k r' (rooms st)) t" if t: "t \<in> set (timers st)" for t
  proof -
    from t assms(1) have ok: "timer_ok (rooms st) t" by (auto simp: invariant_def list_all_iff)
    with assms(2) have "snd (snd t) \<noteq> k"
      by (auto simp: timer_ok_def split: prod.splits option.splits)
    with ok show ?thesis by (rule timer_ok_other)
  qed
  then show ?thesis
    using assms by (auto simp: invariant_def distinct_update list_all_iff dest!: in_set_updateD)
qed

lemma inv_create_room:
  assumes "invariant st" "create_room sid nm model now draws st = Some st'"
  shows "invariant st'"
proof -
  from assms(2) obtain c where c: "generateRoomCode (rooms st) draws = Some c"
    by (auto simp: create_room_def split: option.splits)
  have "room_ok c \<lparr>code = c, hostSocketId = sid, phase = Lobby,
          players = [(sid, new_player sid nm model (COLOR_PALETTE ! 0))], createdAt = now,
          raceStartedAt = None, finishedCount = 0, broadcastInterval = None, raceTimeout = None\<rparr>"
    by (simp add: room_ok_def)
  from inv_add_room[OF assms(1) generateRoomCode_fresh[OF c] this] assms(2) c
  show ?thesis by (auto simp: create_room_def Let_def)
qed

lemma room_ok_join:
  assumes "room_ok k r"
  shows "room_ok k (r\<lparr>players := AList.update sid (new_player sid nm model color) (players r)\<rparr>)"
  using assms by (auto simp: room_ok_def distinct_update list_all_iff dest!: in_set_updateD)

lemma inv_join_room: "invariant st \<Longrightarrow> invariant (join_room sid c nm model st)"
  by (auto simp: join_room_def Let_def split: option.splits
      intro!: inv_update_room room_ok_join dest: room_lookup)

lemma inv_rejoin_room: "invariant st \<Longrightarrow> invariant (rejoin_room sid c nm model st)"
  by (auto simp: rejoin_room_def Let_def split: option.splits
      intro!: inv_update_room room_ok_join dest: room_lookup)

subsection \<open>Every handler keeps the invariant\<close>

lemma inv_start_race:
  assumes inv: "invariant st"
  shows "invariant (start_race sid c t1 t2 st)"
proof (cases "map_of (rooms st) c")
  case None
  then show ?thesis using inv by (simp add: start_race_def)
next
  case (Some room)
  show ?thesis
  proof (cases "hostSocketId room = sid \<and> phase room = Lobby \<and> \<not> length (players room) < 1")
    case False
    then show ?thesis using inv Some by (auto simp: start_race_def)
  next
    case True
    let ?h = "nextHandle st"
    let ?r' = "room\<lparr>phase := Racing, raceStartedAt := Some t1, finishedCount := 0,
                    broadcastInterval := Some ?h, raceTimeout := Some (?h + 1)\<rparr>"
    let ?rs = "AList.update c ?r' (rooms st)"
    have ok: "room_ok c ?r'"
      using room_lookup[OF inv Some] by (simp add: room_ok_def)
    have old: "timer_ok ?rs t" if t: "t \<in> set (timers st)" for t
    proof -
      from t inv have tk: "timer_ok (rooms st) t" by (auto simp: invariant_def list_all_iff)
      with Some True have "snd (snd t) \<noteq> c"
        by (auto simp: timer_ok_def split: prod.splits option.splits)
      with tk show ?thesis by (rule timer_ok_other)
    qed
    have new: "timer_ok ?rs (?h, BroadcastLoop, c)" "timer_ok ?rs (?h + 1, RaceTimeout, c)"
      by (simp_all add: timer_ok_def update_conv')
    have "invariant (st\<lparr>rooms := ?rs,
             timers := timers st @ [(?h, BroadcastLoop, c), (?h + 1, RaceTimeout, c)]\<rparr>)"
      using inv ok old new
      by (auto simp: invariant_def distinct_update list_all_iff dest!: in_set_updateD)
    then show ?thesis using Some True by (simp add: start_race_def Let_def invariant_def emit_def)
  qed
qed

lemma room_ok_set_player:
  assumes "room_ok k r" "player_ok p'" "phase r \<noteq> Lobby"
  shows "room_ok k (r\<lparr>players := AList.update sid p' (players r)\<rparr>)"
  using assms by (auto simp: room_ok_def distinct_update list_all_iff dest!: in_set_updateD)

lemma player_ok_click:
  assumes "player_ok p" "\<not> now - lastClickTime p < 50"
  shows "player_ok (p\<lparr>lastClickTime := now, clickCount := min 100 (clickCount p + 1),
                       progress := min 100 (clickCount p + 1)\<rparr>)"
    and "player_ok (p\<lparr>lastClickTime := now, clickCount := min 100 (clickCount p + 1),
                       progress := min 100 (clickCount p + 1),
                       finishedAt := Some now, rank := x\<rparr>)"
  using assms by (auto simp: player_ok_def split: option.splits)

lemma player_lookup:
  "room_ok k r \<Longrightarrow> map_of (players r) s = Some p \<Longrightarrow> player_ok p"
  by (auto simp: room_ok_def list_all_iff dest: map_of_SomeD)

lemma inv_click:
  assumes inv: "invariant st"
  shows "invariant (click sid c now st)"
proof (cases "map_of (rooms st) c")
  case None
  then show ?thesis using inv by (simp add: click_def)
next
  case (Some room)
  note rok = room_lookup[OF inv Some]
  show ?thesis
  proof (cases "map_of (players room) sid")
    case None
    then show ?thesis using inv Some by (simp add: click_def)
  next
    case (Some p)
    note pok = player_lookup[OF rok Some]
    show ?thesis
    proof (cases "phase room = Racing \<and> \<not> (truthy (finishedAt p) \<or> disconnected p) \<and> \<not> now - lastClickTime p < 50")
      case False
      then show ?thesis using inv \<open>map_of (rooms st) c = Some room\<close> Some
        by (auto simp: click_def)
    next
      case True
      let ?p1 = "p\<lparr>lastClickTime := now, clickCount := min 100 (clickCount p + 1),
                       progress := min 100 (clickCount p + 1)\<rparr>"
      let ?p2 = "?p1\<lparr>finishedAt := Some now, rank := Some (finishedCount room + 1)\<rparr>"
      have ok1: "room_ok c (room\<lparr>players := AList.update sid ?p1 (players room)\<rparr>)"
        using rok True player_ok_click(1)[OF pok] by (intro room_ok_set_player) auto
      have ok2: "room_ok c (room\<lparr>finishedCount := finishedCount room + 1,
                                  players := AList.update sid ?p2 (players room)\<rparr>)"
        using rok True player_ok_click(2)[OF pok, of now]
        by (auto simp: room_ok_def distinct_update list_all_iff dest!: in_set_updateD)
      have i1: "invariant (st\<lparr>rooms := AList.update c (room\<lparr>players := AList.update sid ?p1 (players room)\<rparr>) (rooms st)\<rparr>)"
        by (rule inv_update_room[OF inv \<open>map_of (rooms st) c = Some room\<close> ok1]) simp_all
      have i2: "invariant (st\<lparr>rooms := AList.update c (room\<lparr>finishedCount := finishedCount room + 1,
                                  players := AList.update sid ?p2 (players room)\<rparr>) (rooms st)\<rparr>)"
        by (rule inv_update_room[OF inv \<open>map_of (rooms st) c = Some room\<close> ok2]) simp_all
      show ?thesis
        using True \<open>map_of (rooms st) c = Some room\<close> Some i1 i2
        by (auto simp: click_def Let_def intro!: inv_checkAllFinished)
    qed
  qed
qed

lemma inv_reset_room:
  assumes inv: "invariant st"
  shows "invariant (reset_room sid c st)"
proof (cases "map_of (rooms st) c")
  case None
  then show ?thesis using inv by (simp add: reset_room_def)
next
  case (Some room)
  let ?r' = "room\<lparr>phase := Lobby, raceStartedAt := None, finishedCount := 0,
                  players := map (\<lambda>(k, p). (k, resetPlayer p)) (players room)\<rparr>"
  have "map fst (map (\<lambda>(k, p). (k, resetPlayer p)) (players room)) = map fst (players room)"
    by (induction "players room") auto
  then have "distinct (map fst (players ?r'))"
    using room_lookup[OF inv Some] by (simp add: room_ok_def del: map_map)
  moreover have "list_all (\<lambda>kp. player_ok (snd kp)) (players ?r')"
    "list_all (\<lambda>kp. resetPlayer (snd kp) = snd kp) (players ?r')"
    by (auto simp: list_all_iff)
  ultimately have ok: "room_ok c ?r'"
    using room_lookup[OF inv Some] unfolding room_ok_def by simp
  have "invariant (st\<lparr>rooms := AList.update c ?r' (rooms st),
                      timers := clearTimer (raceTimeout room) (clearTimer (broadcastInterval room) (timers st))\<rparr>)"
    by (rule inv_update_room_cleared[OF inv Some ok]) simp
  then show ?thesis using Some inv by (auto simp: reset_room_def Let_def)
qed

lemma findRoomBySocket_SomeD:
  "findRoomBySocket sid rs = Some (k, room) \<Longrightarrow> (k, room) \<in> set rs \<and> map_of (players room) sid \<noteq> None"
  unfolding findRoomBySocket_def by (induction rs) (auto split: if_splits)

lemma room_ok_delete_player:
  assumes "room_ok k r"
  shows "room_ok k (r\<lparr>players := AList.delete sid (players r), hostSocketId := h\<rparr>)"
    and "room_ok k (r\<lparr>players := AList.delete sid (players r)\<rparr>)"
  using assms by (auto simp: room_ok_def distinct_delete list_all_iff dest!: in_set_deleteD)

lemma inv_handleDisconnect:
  assumes inv: "invariant st"
  shows "invariant (handleDisconnect sid st)"
proof (cases "findRoomBySocket sid (rooms st)")
  case None
  then show ?thesis using inv by (simp add: handleDisconnect_def)
next
  case (Some kr)
  obtain k room where kr: "kr = (k, room)" by (cases kr)
  from findRoomBySocket_SomeD[OF Some[unfolded kr]] obtain player where
    mem: "(k, room) \<in> set (rooms st)" and pl: "map_of (players room) sid = Some player" by auto
  from inv mem have look: "map_of (rooms st) k = Some room"
    by (auto simp: invariant_def)
  note rok = room_lookup[OF inv look]
  then have code: "code room = k" by (simp add: room_ok_def)
  show ?thesis
  proof (cases "phase room")
    case Lobby
    let ?ps = "AList.delete sid (players room)"
    let ?r' = "room\<lparr>players := ?ps,
                    hostSocketId := (if hostSocketId room = sid \<and> length ?ps > 0 then fst (hd ?ps) else hostSocketId room)\<rparr>"
    have i1: "invariant (st\<lparr>rooms := AList.update k (room\<lparr>players := ?ps, hostSocketId := h\<rparr>) (rooms st)\<rparr>)" for h
      by (rule inv_update_room[OF inv look room_ok_delete_player(1)[OF rok]]) simp_all
    have i1': "invariant (st\<lparr>rooms := AList.update k (room\<lparr>players := ?ps\<rparr>) (rooms st)\<rparr>)"
      by (rule inv_update_room[OF inv look room_ok_delete_player(2)[OF rok]]) simp_all
    have i2: "invariant (st\<lparr>rooms := AList.delete k (rooms st)\<rparr>)"
      by (rule inv_delete_room[OF inv look]) (simp add: Lobby)
    show ?thesis
      using Some kr pl Lobby code i1 i1' i2
      by (simp add: handleDisconnect_def Let_def delete_update_same)
  next
    case Racing
    let ?ps = "AList.update sid (player\<lparr>disconnected := True\<rparr>) (players room)"
    have "room_ok k (room\<lparr>players := ?ps, hostSocketId := h\<rparr>)" for h
      using rok player_lookup[OF rok pl] Racing
      by (auto simp: room_ok_def distinct_update list_all_iff dest!: in_set_updateD)
    then have "invariant (st\<lparr>rooms := AList.update k (room\<lparr>players := ?ps, hostSocketId := h\<rparr>) (rooms st)\<rparr>)" for h
      by (intro inv_update_room[OF inv look]) simp_all
    then show ?thesis
      using Some kr pl Racing code
      by (simp add: handleDisconnect_def Let_def inv_checkAllFinished)
  next
    case Finished
    let ?ps = "AList.delete sid (players room)"
    have i1: "invariant (st\<lparr>rooms := AList.update k (room\<lparr>players := ?ps\<rparr>) (rooms st)\<rparr>)"
      by (rule inv_update_room[OF inv look room_ok_delete_player(2)[OF rok]]) simp_all
    have i2: "invariant (st\<lparr>rooms := AList.delete k (rooms st)\<rparr>)"
      by (rule inv_delete_room[OF inv look]) (simp add: Finished)
    show ?thesis
      using Some kr pl Finished code i1 i2
      by (simp add: handleDisconnect_def Let_def delete_update_same)
  qed
qed

lemma inv_broadcast_tick: "invariant st \<Longrightarrow> invariant (broadcast_tick h st)"
  by (auto simp: broadcast_tick_def inv_clearTimer split: option.splits timer_kind.splits)

lemma inv_race_timeout: "invariant st \<Longrightarrow> invariant (race_timeout h st)"
  by (auto simp: race_timeout_def Let_def inv_filter_timers inv_endRace split: option.splits timer_kind.splits)

lemma inv_delete_room_cleared:
  assumes "invariant st" "map_of (rooms st) k = Some r"
  shows "invariant (st\<lparr>timers := clearTimer (raceTimeout r) (clearTimer (broadcastInterval r) (timers st)),
                      rooms := AList.delete k (rooms st)\<rparr>)"
proof -
  have "timer_ok (AList.delete k (rooms st)) t"
    if t: "t \<in> set (clearTimer (raceTimeout r) (clearTimer (broadcastInterval r) (timers st)))" for t
  proof -
    obtain h kd c where [simp]: "t = (h, kd, c)" by (cases t) auto
    from t have mem: "(h, kd, c) \<in> set (timers st)"
      by (auto dest: clearTimer_subset)
    from timer_lookup[OF assms(1) mem] obtain r0 where r0: "map_of (rooms st) c = Some r0"
      "phase r0 = Racing" "kd = BroadcastLoop \<longrightarrow> broadcastInterval r0 = Some h"
      "kd = RaceTimeout \<longrightarrow> raceTimeout r0 = Some h" by blast
    have "c \<noteq> k"
    proof
      assume "c = k"
      with r0 assms(2) have "r0 = r" by simp
      with r0 t show False
        by (cases kd) (auto simp: clearTimer_def split: option.splits)
    qed
    moreover have "timer_ok (rooms st) t"
      using assms(1) mem by (auto simp: invariant_def list_all_iff)
    ultimately show ?thesis
      by (auto simp: timer_ok_def delete_conv' split: option.splits)
  qed
  then show ?thesis
    using assms by (auto simp: invariant_def distinct_delete list_all_iff dest!: in_set_deleteD)
qed

lemma inv_sweepRooms:
  assumes "invariant st" "distinct (map fst rs)" "\<forall>(c, room) \<in> set rs. map_of (rooms st) c = Some room"
  shows "invariant (sweepRooms now rs st)"
  using assms
proof (induction rs arbitrary: st)
  case Nil
  then show ?case by simp
next
  case (Cons a rs)
  obtain c room where a: "a = (c, room)" by (cases a)
  from Cons.prems a have look: "map_of (rooms st) c = Some room" by auto
  show ?case
  proof (cases "now c - createdAt room > TWO_HOURS")
    case True
    let ?st' = "st\<lparr>timers := clearTimer (raceTimeout room) (clearTimer (broadcastInterval room) (timers st)),
                     rooms := AList.delete c (rooms st)\<rparr>"
    have "invariant ?st'" by (rule inv_delete_room_cleared[OF Cons.prems(1) look])
    moreover have "\<forall>(c', room') \<in> set rs. map_of (rooms ?st') c' = Some room'"
    proof (clarify)
      fix c' room' assume m: "(c', room') \<in> set rs"
      then have "c' \<in> fst ` set rs" by force
      with Cons.prems(2) a have "c' \<noteq> c" by auto
      with m Cons.prems(3) show "map_of (rooms ?st') c' = Some room'"
        by (auto simp: delete_conv')
    qed
    ultimately have "invariant (sweepRooms now rs ?st')"
      using Cons.prems by (intro Cons.IH) auto
    then show ?thesis using a True by simp
  next
    case False
    have "invariant (sweepRooms now rs st)"
      using Cons.prems by (intro Cons.IH) auto
    then show ?thesis using a False by simp
  qed
qed

lemma inv_ttl_sweep: "invariant st \<Longrightarrow> invariant (ttl_sweep now st)"
  unfolding ttl_sweep_def
  by (rule inv_sweepRooms) (auto simp: invariant_def)

lemma inv_step: "invariant st \<Longrightarrow> step e st = Some st' \<Longrightarrow> invariant st'"
  by (cases e)
     (auto simp: inv_create_room inv_join_room inv_rejoin_room inv_start_race inv_click
        inv_reset_room inv_handleDisconnect inv_broadcast_tick inv_race_timeout inv_ttl_sweep)

lemma inv_run: "invariant st \<Longrightarrow> run es st = Some st' \<Longrightarrow> invariant st'"
  by (induction es arbitrary: st) (auto split: option.splits dest: inv_step)

subsection \<open>A finished room, a reset room, a joined room\<close>

lemma endRace_finished_noop:
  "map_of (rooms st) k = Some room \<Longrightarrow> phase room = Finished \<Longrightarrow> endRace k c st = st"
  by (simp add: endRace_unfold)

lemma checkAllFinished_finished_noop:
  "map_of (rooms st) k = Some room \<Longrightarrow> phase room = Finished \<Longrightarrow> checkAllFinished k c st = st"
  by (simp add: checkAllFinished_def Let_def endRace_unfold)

lemma click_not_racing_noop:
  "map_of (rooms st) k = Some room \<Longrightarrow> phase room \<noteq> Racing \<Longrightarrow> click sid k now st = st"
  by (simp add: click_def)

lemma endRace_racing:
  assumes "map_of (rooms st) k = Some room" "phase room = Racing"
  shows "\<exists>room' results.
           endRace k c st =
             st\<lparr>rooms := AList.update k room' (rooms st),
                timers := clearTimer (raceTimeout room) (clearTimer (broadcastInterval room) (timers st)),
                outbox := outbox st @ [(ToRoom c, RaceFinished results)]\<rparr>
           \<and> phase room' = Finished"
  using assms
  by (intro exI[of _ "fst (buildResultsArray (room\<lparr>phase := Finished\<rparr>))"]
            exI[of _ "snd (buildResultsArray (room\<lparr>phase := Finished\<rparr>))"])
     (simp add: endRace_unfold)

lemma room_ok_lobby_reset:
  assumes "room_ok k r" "phase r = Lobby"
  shows "r\<lparr>phase := Lobby, raceStartedAt := None, finishedCount := 0,
           players := map (\<lambda>(k, p). (k, resetPlayer p)) (players r)\<rparr> = r"
proof -
  have "map (\<lambda>(k, p). (k, resetPlayer p)) (players r) = players r"
    using assms by (auto simp: room_ok_def list_all_iff intro!: map_idI)
  with assms show ?thesis by (simp add: room_ok_def)
qed

lemma no_countdown_event: "event_name m \<noteq> ''first-finisher-countdown''"
  by (cases m) simp_all

subsection \<open>Players through a click\<close>

lemma map_of_override:
  "map_of (map (\<lambda>(k, p). case m k of None \<Rightarrow> (k, p) | Some p' \<Rightarrow> (k, p')) ps) s =
     (case map_of ps s of None \<Rightarrow> None | Some p \<Rightarrow> Some (case m s of None \<Rightarrow> p | Some p' \<Rightarrow> p'))"
  by (induction ps) (auto split: option.splits)

lemma buildResultsArray_lookup:
  assumes d: "distinct (map fst (players r))" and l: "map_of (players r) s = Some p"
  shows "\<exists>x y. map_of (players (fst (buildResultsArray r))) s = Some (p\<lparr>rank := x, dnf := y\<rparr>)"
proof (cases "map_of (unfinishedPlayers r) s")
  case None
  with l have "map_of (players (fst (buildResultsArray r))) s = Some (p\<lparr>rank := rank p, dnf := dnf p\<rparr>)"
    by (simp add: buildResultsArray_def Let_def map_of_override)
  then show ?thesis by blast
next
  case (Some q)
  then have "(s, q) \<in> set (unfinishedPlayers r)" by (rule map_of_SomeD)
  from unfinishedPlayers_mem[OF this] obtain p0 m where
    p0: "(s, p0) \<in> set (players r)" "q = p0\<lparr>rank := Some m, dnf := True\<rparr>" by blast
  from p0(1) d l have "p0 = p" by (simp add: map_of_eq_Some_iff)
  with p0 Some l have "map_of (players (fst (buildResultsArray r))) s = Some (p\<lparr>rank := Some m, dnf := True\<rparr>)"
    by (simp add: buildResultsArray_def Let_def map_of_override)
  then show ?thesis by blast
qed

lemma same_rank_dnf [simp]: "\<exists>x y. p = p\<lparr>rank := x, dnf := y\<rparr>"
  by (rule exI[of _ "rank p"], rule exI[of _ "dnf p"]) simp

lemma endRace_player:
  assumes inv: "invariant st" and l: "map_of (rooms st) k = Some r" and pl: "map_of (players r) s = Some p"
  shows "\<exists>r' x y. map_of (rooms (endRace k' c st)) k = Some r'
           \<and> map_of (players r') s = Some (p\<lparr>rank := x, dnf := y\<rparr>)"
proof -
  have triv: "map_of (players r) s = Some (p\<lparr>rank := rank p, dnf := dnf p\<rparr>)" using pl by simp
  show ?thesis
  proof (cases "k' = k \<and> phase r \<noteq> Finished")
    case True
    from room_lookup[OF inv l] have "distinct (map fst (players (r\<lparr>phase := Finished\<rparr>)))"
      by (simp add: room_ok_def)
    from buildResultsArray_lookup[OF this, of s p] pl obtain x y where
      "map_of (players (fst (buildResultsArray (r\<lparr>phase := Finished\<rparr>)))) s = Some (p\<lparr>rank := x, dnf := y\<rparr>)"
      by auto
    with True l show ?thesis by (auto simp: endRace_unfold update_conv')
  next
    case False
    with l triv show ?thesis
      by (auto simp: endRace_unfold update_conv' split: option.splits)
  qed
qed

lemma checkAllFinished_player:
  assumes inv: "invariant st" and l: "map_of (rooms st) k = Some r" and pl: "map_of (players r) s = Some p"
  shows "\<exists>r' x y. map_of (rooms (checkAllFinished k' c st)) k = Some r'
           \<and> map_of (players r') s = Some (p\<lparr>rank := x, dnf := y\<rparr>)"
proof (cases "checkAllFinished k' c st = endRace k' c st")
  case True
  then show ?thesis using endRace_player[OF assms] by simp
next
  case False
  then have "checkAllFinished k' c st = st"
    by (auto simp: checkAllFinished_def Let_def split: option.splits if_splits)
  moreover have "map_of (players r) s = Some (p\<lparr>rank := rank p, dnf := dnf p\<rparr>)" using pl by simp
  ultimately show ?thesis using l by metis
qed

lemma checkAllFinished_outbox:
  "outbox (checkAllFinished k c st) = outbox st
   \<or> (\<exists>results. outbox (checkAllFinished k c st) = outbox st @ [(ToRoom c, RaceFinished results)])"
  by (auto simp: checkAllFinished_def Let_def endRace_unfold split: option.splits)

lemma click_accepted:
  assumes "map_of (rooms st) c = Some room" "phase room = Racing"
    "map_of (players room) sid = Some p" "\<not> truthy (finishedAt p)" "\<not> disconnected p"
    "\<not> now - lastClickTime p < 50"
  shows "click sid c now st =
          (if 99 \<le> clickCount p
           then checkAllFinished c c
                  (emit (ToRoom c) (PlayerFinished sid (finishedCount room + 1) (sinceStart now (raceStartedAt room)))
                     (st\<lparr>rooms := AList.update c
                          (room\<lparr>finishedCount := finishedCount room + 1,
                                players := AList.update sid
                                  ((clicked now p)\<lparr>finishedAt := Some now, rank := Some (finishedCount room + 1)\<rparr>)
                                  (players room)\<rparr>) (rooms st)\<rparr>))
           else st\<lparr>rooms := AList.update c (room\<lparr>players := AList.update sid (clicked now p) (players room)\<rparr>) (rooms st)\<rparr>)"
  using assms by (auto simp: click_def Let_def clicked_def)

lemma click_rejected:
  assumes "map_of (rooms st) c = Some room" "map_of (players room) sid = Some p"
    "now - lastClickTime p < 50"
  shows "click sid c now st = st"
  using assms by (auto simp: click_def Let_def)

lemma click_unfold_cases:
  "click sid c now st = st
   \<or> (\<exists>room p. map_of (rooms st) c = Some room \<and> phase room = Racing \<and>
        map_of (players room) sid = Some p \<and> \<not> truthy (finishedAt p) \<and> \<not> disconnected p \<and>
        \<not> now - lastClickTime p < 50)"
  by (auto simp: click_def Let_def split: option.splits)

lemma click_player:
  assumes inv: "invariant st" and l: "map_of (rooms st) k = Some r" and pl: "map_of (players r) s = Some q"
  shows "\<exists>r' q'. map_of (rooms (click sid c now st)) k = Some r' \<and> map_of (players r') s = Some q'
           \<and> progress q \<le> progress q'
           \<and> (if k = c \<and> s = sid \<and> phase r = Racing \<and> \<not> truthy (finishedAt q) \<and> \<not> disconnected q
                  \<and> \<not> now - lastClickTime q < 50
              then lastClickTime q' = now \<and> clickCount q' = min 100 (clickCount q + 1)
              else lastClickTime q' = lastClickTime q \<and> clickCount q' = clickCount q)"
proof -
  consider (same) "click sid c now st = st"
      "\<not> (\<exists>room p. map_of (rooms st) c = Some room \<and> phase room = Racing \<and>
        map_of (players room) sid = Some p \<and> \<not> truthy (finishedAt p) \<and> \<not> disconnected p \<and>
        \<not> now - lastClickTime p < 50)"
    | (acc) room p where "map_of (rooms st) c = Some room" "phase room = Racing"
        "map_of (players room) sid = Some p" "\<not> truthy (finishedAt p)" "\<not> disconnected p"
        "\<not> now - lastClickTime p < 50"
    using click_unfold_cases[of sid c now st] by blast
  then show ?thesis
  proof cases
    case same
    with l pl show ?thesis by auto
  next
    case (acc room p)
    note eq = click_accepted[OF acc(1-6)]
    have pok: "player_ok q" by (rule player_lookup[OF room_lookup[OF inv l] pl])
    have rok: "room_ok c room" by (rule room_lookup[OF inv acc(1)])
    have pok': "player_ok p" by (rule player_lookup[OF rok acc(3)])
    let ?p2 = "(clicked now p)\<lparr>finishedAt := Some now, rank := Some (finishedCount room + 1)\<rparr>"
    let ?room2 = "room\<lparr>finishedCount := finishedCount room + 1,
                        players := AList.update sid ?p2 (players room)\<rparr>"
    let ?room1 = "room\<lparr>players := AList.update sid (clicked now p) (players room)\<rparr>"
    let ?st2 = "emit (ToRoom c) (PlayerFinished sid (finishedCount room + 1) (sinceStart now (raceStartedAt room)))
                     (st\<lparr>rooms := AList.update c ?room2 (rooms st)\<rparr>)"
    show ?thesis
    proof (cases "99 \<le> clickCount p")
      case False
      with eq have e: "click sid c now st = st\<lparr>rooms := AList.update c ?room1 (rooms st)\<rparr>" by simp
      show ?thesis
        using l pl acc pok
        by (cases "k = c"; cases "s = sid") (auto simp: e update_conv' clicked_def player_ok_def)
    next
      case True
      with eq have e: "click sid c now st = checkAllFinished c c ?st2" by simp
      have ok2: "room_ok c ?room2"
        using rok acc(2) player_ok_click(2)[OF pok' acc(6), of "Some (finishedCount room + 1)"]
        by (auto simp: clicked_def room_ok_def distinct_update list_all_iff dest!: in_set_updateD)
      have inv2: "invariant ?st2"
        using inv_update_room[OF inv acc(1) ok2] by simp
      obtain r2 q2 where r2: "map_of (rooms ?st2) k = Some r2" "map_of (players r2) s = Some q2"
        and q2: "progress q \<le> progress q2"
           "if k = c \<and> s = sid then lastClickTime q2 = now \<and> clickCount q2 = min 100 (clickCount q + 1)
            else lastClickTime q2 = lastClickTime q \<and> clickCount q2 = clickCount q"
        using l pl acc(1,3) pok
        by (cases "k = c"; cases "s = sid") (auto simp: emit_def update_conv' clicked_def player_ok_def)
      from checkAllFinished_player[OF inv2 r2, of c c] obtain r' x y where
        r': "map_of (rooms (checkAllFinished c c ?st2)) k = Some r'"
        "map_of (players r') s = Some (q2\<lparr>rank := x, dnf := y\<rparr>)" by blast
      show ?thesis
        using r' q2 l pl acc
        by (cases "k = c"; cases "s = sid") (auto simp: e)
    qed
  qed
qed

lemma clicks_player:
  assumes "invariant st" "map_of (rooms st) k = Some r" "map_of (players r) s = Some q"
  shows "\<exists>st' r' q'. run (clickEvents cs) st = Some st' \<and> invariant st'
           \<and> map_of (rooms st') k = Some r' \<and> map_of (players r') s = Some q'
           \<and> progress q \<le> progress q'"
  using assms
proof (induction cs arbitrary: st r q)
  case Nil
  then show ?case by (auto simp: clickEvents_def)
next
  case (Cons a cs)
  obtain sid c now where a: "a = (sid, c, now)" by (cases a) auto
  from click_player[OF Cons.prems, of sid c now] obtain r1 q1 where
    1: "map_of (rooms (click sid c now st)) k = Some r1" "map_of (players r1) s = Some q1"
       "progress q \<le> progress q1" by blast
  have "invariant (click sid c now st)" by (rule inv_click[OF Cons.prems(1)])
  from Cons.IH[OF this 1(1,2)] obtain st' r' q' where
    "run (clickEvents cs) (click sid c now st) = Some st'" "invariant st'"
    "map_of (rooms st') k = Some r'" "map_of (players r') s = Some q'" "progress q1 \<le> progress q'"
    by blast
  with 1(3) a show ?case
    by (intro exI[of _ st'] exI[of _ r'] exI[of _ q']) (simp add: clickEvents_def)
qed

lemma sent_never_countdown: "''first-finisher-countdown'' \<notin> set (sent st)"
proof
  assume "''first-finisher-countdown'' \<in> set (sent st)"
  then obtain m where "event_name m = ''first-finisher-countdown''"
    by (auto simp: sent_def)
  with no_countdown_event[of m] show False by simp
qed

subsection \<open>The standings\<close>

lemma assignRanks_ranks:
  "map (rank \<circ> snd) (assignRanks n xs) = map Some [Suc n..<Suc n + length xs]"
proof (induction n xs rule: assignRanks.induct)
  case (1 r)
  then show ?case by simp
next
  case (2 r k p ps)
  have "[Suc r..<Suc r + length ((k, p) # ps)] = Suc r # [Suc (Suc r)..<Suc (Suc r) + length ps]"
    by (simp add: upt_rec)
  with 2 show ?case by simp
qed

lemma assignRanks_unchanged:
  "map (progress \<circ> snd) (assignRanks n xs) = map (progress \<circ> snd) xs"
  "map (finishedAt \<circ> snd) (assignRanks n xs) = map (finishedAt \<circ> snd) xs"
  "map (disconnected \<circ> snd) (assignRanks n xs) = map (disconnected \<circ> snd) xs"
  by (induction n xs rule: assignRanks.induct) auto

lemma assignRanks_dnf: "list_all (\<lambda>kp. dnf (snd kp)) (assignRanks n xs)"
  by (induction n xs rule: assignRanks.induct) auto

lemma assignRanks_length [simp]: "length (assignRanks n xs) = length xs"
  by (induction n xs rule: assignRanks.induct) auto


lemma descending_iff:
  "sorted_wrt (\<lambda>a b. progress (snd b) \<le> progress (snd a)) zs
     = sorted_wrt (\<lambda>x y. y \<le> x) (map (progress \<circ> snd) zs)"
  by (simp add: sorted_wrt_map)

lemma assignRanks_descending:
  "sorted_wrt (\<lambda>a b. progress (snd b) \<le> progress (snd a)) (assignRanks n xs)
     = sorted_wrt (\<lambda>a b. progress (snd b) \<le> progress (snd a)) xs"
  by (simp only: descending_iff assignRanks_unchanged)

lemma finishedPlayers_mset:
  "mset (finishedPlayers r) = mset (filter (\<lambda>kp. truthy (finishedAt (snd kp))) (players r))"
  by (simp add: finishedPlayers_def mset_sort)

lemma finishedPlayers_length:
  "length (finishedPlayers r) = length (filter (\<lambda>kp. truthy (finishedAt (snd kp))) (players r))"
  by (simp add: finishedPlayers_def)


lemma finishedPlayers_all: "list_all (\<lambda>kp. truthy (finishedAt (snd kp))) (finishedPlayers r)"
  by (simp add: finishedPlayers_def list_all_iff)

lemma unfinishedPlayers_ranks:
  "map (rank \<circ> snd) (unfinishedPlayers r)
     = map Some [Suc (length (finishedPlayers r))..<Suc (length (players r))]"
proof -
  have "length (finishedPlayers r) + length (filter (\<lambda>kp. \<not> truthy (finishedAt (snd kp))) (players r))
          = length (players r)"
    unfolding finishedPlayers_length by (rule sum_length_filter_compl)
  then show ?thesis
    by (simp add: unfinishedPlayers_def assignRanks_ranks)
qed


lemma unfinishedPlayers_descending:
  "sorted_wrt (\<lambda>a b. progress (snd b) \<le> progress (snd a)) (unfinishedPlayers r)"
proof -
  let ?xs = "sort_key (\<lambda>kp. - int (progress (snd kp)))
          (filter (\<lambda>kp. \<not> truthy (finishedAt (snd kp))) (players r))"
  have "sorted (map (\<lambda>kp. - int (progress (snd kp))) ?xs)" by (rule sorted_sort_key)
  then have "sorted_wrt (\<lambda>a b. progress (snd b) \<le> progress (snd a)) ?xs"
    by (simp add: sorted_map)
  then show ?thesis
    unfolding unfinishedPlayers_def by (simp only: assignRanks_descending)
qed

lemma unfinishedPlayers_keys:
  "mset (map fst (unfinishedPlayers r))
     = mset (map fst (filter (\<lambda>kp. \<not> truthy (finishedAt (snd kp))) (players r)))"
proof -
  let ?NF = "filter (\<lambda>kp. \<not> truthy (finishedAt (snd kp))) (players r)"
  have "mset (map fst (sort_key (\<lambda>kp. - int (progress (snd kp))) ?NF))
          = image_mset fst (mset (sort_key (\<lambda>kp. - int (progress (snd kp))) ?NF))"
    by (rule mset_map)
  also have "\<dots> = image_mset fst (mset ?NF)" by (simp only: mset_sort)
  also have "\<dots> = mset (map fst ?NF)" by (rule mset_map[symmetric])
  finally show ?thesis by (simp add: unfinishedPlayers_def)
qed

lemma rebuild_alist: "distinct (map fst U) \<Longrightarrow> map (\<lambda>k. (k, the (map_of U k))) (map fst U) = U"
proof (induction U)
  case Nil
  then show ?case by simp
next
  case (Cons a U)
  obtain k v where a: "a = (k, v)" by (cases a)
  from Cons.prems a have notin: "k \<notin> fst ` set U" and d: "distinct (map fst U)" by auto
  have "map (\<lambda>k'. (k', the (map_of ((k, v) # U) k'))) (map fst U)
          = map (\<lambda>k'. (k', the (map_of U k'))) (map fst U)"
    using notin by (intro map_cong) auto
  with Cons.IH[OF d] a show ?case by simp
qed

lemma override_mset:
  fixes fin :: "'b \<Rightarrow> bool"
  assumes dps: "distinct (map fst ps)" and dU: "distinct (map fst U)"
    and keys: "mset (map fst U) = mset (map fst (filter (\<lambda>kp. \<not> fin (snd kp)) ps))"
  shows "mset (map (\<lambda>(k, p). case map_of U k of None \<Rightarrow> (k, p) | Some p' \<Rightarrow> (k, p')) ps)
           = mset (filter (\<lambda>kp. fin (snd kp)) ps) + mset U"
proof -
  let ?g = "\<lambda>(k, p). case map_of U k of None \<Rightarrow> (k, p) | Some p' \<Rightarrow> (k, p')"
  let ?h = "\<lambda>k. (k, the (map_of U k))"
  let ?F = "filter (\<lambda>kp. fin (snd kp)) ps"
  let ?NF = "filter (\<lambda>kp. \<not> fin (snd kp)) ps"
  from keys have skeys: "set (map fst U) = set (map fst ?NF)" by (rule mset_eq_setD)
  have 1: "?g kp = kp" if "kp \<in> set ?F" for kp
  proof -
    obtain k p where kp: "kp = (k, p)" by (cases kp)
    from that kp have m: "(k, p) \<in> set ps" "fin p" by auto
    have "k \<notin> set (map fst U)"
    proof
      assume "k \<in> set (map fst U)"
      with skeys obtain p' where "(k, p') \<in> set ps" "\<not> fin p'" by auto
      with m eq_key_imp_eq_value[OF dps, of k p' p] have "p' = p" by simp
      with \<open>\<not> fin p'\<close> m show False by simp
    qed
    then have "map_of U k = None" by (simp add: map_of_eq_None_iff)
    with kp show ?thesis by simp
  qed
  have 2: "?g kp = ?h (fst kp)" if "kp \<in> set ?NF" for kp
  proof -
    obtain k p where kp: "kp = (k, p)" by (cases kp)
    from that skeys kp have "k \<in> fst ` set U" by force
    then obtain p' where "map_of U k = Some p'"
      by (cases "map_of U k") (auto simp: map_of_eq_None_iff)
    with kp show ?thesis by simp
  qed
  have "mset ps = mset ?F + mset ?NF" by simp
  then have "image_mset ?g (mset ps) = image_mset ?g (mset ?F) + image_mset ?g (mset ?NF)"
    by (simp only: image_mset_union)
  then have "mset (map ?g ps) = mset (map ?g ?F) + mset (map ?g ?NF)"
    by (simp only: mset_map)
  also have "map ?g ?F = ?F" using 1 by (intro map_idI) blast
  also have "map ?g ?NF = map ?h (map fst ?NF)"
  proof -
    have "map ?g ?NF = map (?h \<circ> fst) ?NF"
      by (rule map_cong[OF refl]) (use 2 in simp)
    then show ?thesis by (simp only: map_map)
  qed
  also have "mset (map ?h (map fst ?NF)) = image_mset ?h (mset (map fst ?NF))" by (rule mset_map)
  also have "\<dots> = image_mset ?h (mset (map fst U))" by (simp only: keys)
  also have "\<dots> = mset (map ?h (map fst U))" by (rule mset_map[symmetric])
  also have "map ?h (map fst U) = U" by (rule rebuild_alist[OF dU])
  finally show ?thesis .
qed

lemma buildResultsArray_results:
  "snd (buildResultsArray r) = map (serializePlayer \<circ> snd) (finishedPlayers r @ unfinishedPlayers r)"
  by (simp add: buildResultsArray_def Let_def)

lemma buildResultsArray_mset:
  assumes d: "distinct (map fst (players r))"
  shows "mset (players (fst (buildResultsArray r))) = mset (finishedPlayers r) + mset (unfinishedPlayers r)"
proof -
  have dNF: "distinct (map fst (filter (\<lambda>kp. \<not> truthy (finishedAt (snd kp))) (players r)))"
    using d by (rule distinct_map_filter)
  have dU: "distinct (map fst (unfinishedPlayers r))"
    using mset_eq_imp_distinct_iff[OF unfinishedPlayers_keys[of r]] dNF by simp
  have "mset (players (fst (buildResultsArray r)))
          = mset (filter (\<lambda>kp. truthy (finishedAt (snd kp))) (players r)) + mset (unfinishedPlayers r)"
    using override_mset[OF d dU, of "\<lambda>p. truthy (finishedAt p)"] unfinishedPlayers_keys[of r]
    by (simp add: buildResultsArray_def Let_def)
  then show ?thesis by (simp add: finishedPlayers_mset)
qed

lemma ranks_from_rankNum:
  "\<forall>x\<in>set xs. rankNum (snd x) \<noteq> 0 \<Longrightarrow> map (rank \<circ> snd) xs = map Some (map (rankNum \<circ> snd) xs)"
  by (induction xs) (auto simp: rankNum_def split: option.splits)

text \<open>The ranks after the race, when the finishers hold the ranks from 1 on.\<close>

lemma standings_ranks:
  assumes "map (rankNum \<circ> snd) (finishedPlayers r) = [1..<Suc (length (finishedPlayers r))]"
  shows "map (rank \<circ> snd) (finishedPlayers r @ unfinishedPlayers r) = map Some [1..<Suc (length (players r))]"
proof -
  let ?m = "length (finishedPlayers r)"
  have "0 \<notin> set [1..<Suc ?m]" unfolding set_upt by simp
  then have "0 \<notin> set (map (rankNum \<circ> snd) (finishedPlayers r))" by (simp only: assms not_False_eq_True)
  then have "\<forall>x\<in>set (finishedPlayers r). rankNum (snd x) \<noteq> 0" by force
  from ranks_from_rankNum[OF this]
  have f: "map (rank \<circ> snd) (finishedPlayers r) = map Some [1..<Suc ?m]" by (simp only: assms)
  have "?m \<le> length (players r)"
    by (simp add: finishedPlayers_length)
  then obtain d where d: "length (players r) = ?m + d" by (auto simp: le_iff_add)
  have "[1..<Suc ?m + d] = [1..<Suc ?m] @ [Suc ?m..<Suc ?m + d]"
    by (rule upt_add_eq_append) simp
  then have "[1..<Suc (length (players r))] = [1..<Suc ?m] @ [Suc ?m..<Suc (length (players r))]"
    by (simp only: d add_Suc)
  then have "map Some [1..<Suc (length (players r))]
               = map Some [1..<Suc ?m] @ map Some [Suc ?m..<Suc (length (players r))]"
    by (simp only: map_append)
  with f unfinishedPlayers_ranks[of r] show ?thesis by (simp only: map_append)
qed

subsection \<open>The standings of a room\<close>

lemma finishedPlayers_phase [simp]: "finishedPlayers (r\<lparr>phase := ph\<rparr>) = finishedPlayers r"
  by (simp add: finishedPlayers_def)

lemma unfinishedPlayers_phase [simp]: "unfinishedPlayers (r\<lparr>phase := ph\<rparr>) = unfinishedPlayers r"
  by (simp add: unfinishedPlayers_def)



lemma map_fst_update:
  "map_of al k = Some v \<Longrightarrow> map fst (AList.update k v' al) = map fst al"
  by (induction al) (auto split: if_splits)

lemma in_set_update_distinctD:
  "distinct (map fst al) \<Longrightarrow> x \<in> set (AList.update k v al) \<Longrightarrow> x = (k, v) \<or> (x \<in> set al \<and> fst x \<noteq> k)"
  by (induction al) (auto split: if_splits simp: image_iff)

lemma same_host_update:
  "hostSocketId room = sid \<Longrightarrow> room\<lparr>players := ps, hostSocketId := sid\<rparr> = room\<lparr>players := ps\<rparr>"
  by (cases room) simp

lemma handleDisconnect_racing_nobody:
  assumes "findRoomBySocket sid (rooms st) = Some (k, room)" "map_of (players room) sid = Some player"
    "phase room = Racing"
    "find (\<lambda>i. case map_of (AList.update sid (player\<lparr>disconnected := True\<rparr>) (players room)) i of
                   None \<Rightarrow> False | Some p \<Rightarrow> \<not> disconnected p)
       (map fst (AList.update sid (player\<lparr>disconnected := True\<rparr>) (players room))) = None"
  shows "handleDisconnect sid st =
           checkAllFinished k (code room)
             (emit (ToRoom (code room)) (PlayerLeft sid None)
                (st\<lparr>rooms := AList.update k
                     (room\<lparr>players := AList.update sid (player\<lparr>disconnected := True\<rparr>) (players room)\<rparr>)
                     (rooms st)\<rparr>))"
  using assms by (simp add: handleDisconnect_def Let_def same_host_update)

subsection \<open>Ranks along a run\<close>





lemma not_finished_new [simp]: "\<not> isFinished (s, new_player sid nm model color)"
  by (simp add: isFinished_def new_player_def truthy_def)



lemma ranks_at_simps [simp]:
  "ranks_at k (st\<lparr>outbox := x\<rparr>) = ranks_at k st"
  "ranks_at k (st\<lparr>timers := y\<rparr>) = ranks_at k st"
  "ranks_at k (st\<lparr>nextHandle := z\<rparr>) = ranks_at k st"
  "ranks_at k (emit t m st) = ranks_at k st"
  by (simp_all add: ranks_at_def emit_def)


lemma ranks_at_delete:
  "ranks_at k (st\<lparr>rooms := AList.delete c (rooms st)\<rparr>) = (c = k \<or> ranks_at k st)"
  by (simp add: ranks_at_def delete_conv')




















subsection \<open>The end of a race, by each trigger\<close>

lemma race_timeout_gone:
  "map_of (timers st) h = None \<Longrightarrow> race_timeout h st = st"
  by (simp add: race_timeout_def)

lemma broadcast_tick_gone:
  "map_of (timers st) h = None \<Longrightarrow> broadcast_tick h st = st"
  by (simp add: broadcast_tick_def)

lemma map_of_filter_fst_None: "map_of (filter (\<lambda>t. fst t \<noteq> h) ts) h = None"
  by (induction ts) auto

lemma map_of_clearTimer_None: "map_of ts h = None \<Longrightarrow> map_of (clearTimer x ts) h = None"
  by (auto simp: clearTimer_def map_of_eq_None_iff split: option.splits)

lemma map_of_clearTimer_same: "map_of (clearTimer (Some h) ts) h = None"
  by (simp add: clearTimer_def map_of_filter_fst_None)

lemma timers_of_room:
  assumes "invariant st" "map_of (rooms st) k = Some room"
  shows "\<forall>t\<in>set (timers st). snd (snd t) = k \<longrightarrow>
           broadcastInterval room = Some (fst t) \<or> raceTimeout room = Some (fst t)"
proof
  fix t assume t: "t \<in> set (timers st)"
  obtain h kd c where [simp]: "t = (h, kd, c)" by (cases t) auto
  from timer_lookup[OF assms(1) t[simplified]] assms(2)
  show "snd (snd t) = k \<longrightarrow> broadcastInterval room = Some (fst t) \<or> raceTimeout room = Some (fst t)"
    by (cases kd) auto
qed

lemma endRace_over:
  assumes look: "map_of (rooms st) k = Some room" and racing: "phase room = Racing"
    and tm: "\<forall>t\<in>set (timers st). snd (snd t) = k \<longrightarrow>
               broadcastInterval room = Some (fst t) \<or> raceTimeout room = Some (fst t)"
  shows "raceOver k (endRace k c st)"
    and "outbox (endRace k c st)
           = outbox st @ [(ToRoom c, RaceFinished (snd (buildResultsArray (room\<lparr>phase := Finished\<rparr>))))]"
    and "timersIdle room (endRace k c st)"
proof -
  have e: "endRace k c st =
          st\<lparr>rooms := AList.update k (fst (buildResultsArray (room\<lparr>phase := Finished\<rparr>))) (rooms st),
             timers := clearTimer (raceTimeout room) (clearTimer (broadcastInterval room) (timers st)),
             outbox := outbox st @ [(ToRoom c, RaceFinished (snd (buildResultsArray (room\<lparr>phase := Finished\<rparr>))))]\<rparr>"
    using look racing by (simp add: endRace_unfold)
  have "snd (snd t) \<noteq> k"
    if "t \<in> set (clearTimer (raceTimeout room) (clearTimer (broadcastInterval room) (timers st)))" for t
  proof
    assume k: "snd (snd t) = k"
    from that have m: "t \<in> set (timers st)" by (auto dest: clearTimer_subset)
    with tm k have "broadcastInterval room = Some (fst t) \<or> raceTimeout room = Some (fst t)" by blast
    with that show False by (auto simp: clearTimer_def split: option.splits)
  qed
  then show "raceOver k (endRace k c st)"
    by (auto simp: raceOver_def e update_conv')
  show "outbox (endRace k c st)
           = outbox st @ [(ToRoom c, RaceFinished (snd (buildResultsArray (room\<lparr>phase := Finished\<rparr>))))]"
    by (simp add: e)
  have t: "timers (endRace k c st)
             = clearTimer (raceTimeout room) (clearTimer (broadcastInterval room) (timers st))"
    by (simp add: e)
  have "map_of (timers (endRace k c st)) h = None" if "raceTimeout room = Some h" for h
    unfolding t that by (rule map_of_clearTimer_same)
  moreover have "map_of (timers (endRace k c st)) h = None" if "broadcastInterval room = Some h" for h
    unfolding t that by (rule map_of_clearTimer_None[OF map_of_clearTimer_same])
  ultimately show "timersIdle room (endRace k c st)"
    by (auto simp: timersIdle_def race_timeout_gone broadcast_tick_gone split: option.splits)
qed

lemma raceOver_noop:
  assumes "raceOver k st"
  shows "endRace k c st = st" "checkAllFinished k c st = st" "click sid k now st = st"
    "map_of (timers st) h \<noteq> Some (RaceTimeout, k)" "map_of (timers st) h \<noteq> Some (BroadcastLoop, k)"
proof -
  from assms obtain r where r: "map_of (rooms st) k = Some r" "phase r = Finished"
    by (auto simp: raceOver_def split: option.splits)
  show "endRace k c st = st" by (rule endRace_finished_noop[OF r])
  show "checkAllFinished k c st = st" by (rule checkAllFinished_finished_noop[OF r])
  show "click sid k now st = st" using r by (intro click_not_racing_noop[OF r(1)]) simp
  have "map_of (timers st) h \<noteq> Some (kd, k)" for kd
  proof
    assume "map_of (timers st) h = Some (kd, k)"
    then have "(h, kd, k) \<in> set (timers st)" by (rule map_of_SomeD)
    then have "k \<in> set (map (snd \<circ> snd) (timers st))" by force
    with assms show False by (simp add: raceOver_def)
  qed
  then show "map_of (timers st) h \<noteq> Some (RaceTimeout, k)" "map_of (timers st) h \<noteq> Some (BroadcastLoop, k)"
    by blast+
qed

lemma checkAllFinished_if:
  "map_of (rooms st) k = Some room \<Longrightarrow>
   checkAllFinished k c st = (if allActiveFinished room then endRace k c st else st)"
  by (simp add: checkAllFinished_def allActiveFinished_def Let_def)

lemma race_timeout_racing:
  assumes "map_of (timers st) h = Some (RaceTimeout, k)" "map_of (rooms st) k = Some room" "phase room = Racing"
  shows "race_timeout h st = endRace k k (st\<lparr>timers := filter (\<lambda>t. fst t \<noteq> h) (timers st)\<rparr>)"
  using assms by (simp add: race_timeout_def Let_def)

lemma handleDisconnect_racing:
  assumes "findRoomBySocket sid (rooms st) = Some (k, room)" "map_of (players room) sid = Some player"
    "phase room = Racing"
  shows "\<exists>nh host.
           handleDisconnect sid st =
             checkAllFinished k (code room)
               (emit (ToRoom (code room)) (PlayerLeft sid nh)
                  (st\<lparr>rooms := AList.update k
                       (room\<lparr>players := AList.update sid (player\<lparr>disconnected := True\<rparr>) (players room),
                             hostSocketId := host\<rparr>)
                       (rooms st)\<rparr>))"
proof (cases "hostSocketId room = sid")
  case True
  define nh where "nh = (case find (\<lambda>i. case map_of (AList.update sid (player\<lparr>disconnected := True\<rparr>) (players room)) i of
                                       None \<Rightarrow> False | Some p \<Rightarrow> \<not> disconnected p)
                               (map fst (AList.update sid (player\<lparr>disconnected := True\<rparr>) (players room))) of
                          None \<Rightarrow> None | Some i \<Rightarrow> if i = [] then None else Some i)"
  show ?thesis
    using assms True
    by (intro exI[of _ nh] exI[of _ "case nh of None \<Rightarrow> hostSocketId room | Some i \<Rightarrow> i"])
       (simp add: handleDisconnect_def Let_def nh_def)
next
  case False
  show ?thesis
    using assms False
    by (intro exI[of _ None] exI[of _ "hostSocketId room"])
       (simp add: handleDisconnect_def Let_def)
qed

lemma timeout_ends_race:
  assumes inv: "invariant st" and look: "map_of (rooms st) k = Some room" and racing: "phase room = Racing"
    and live: "map_of (timers st) h = Some (RaceTimeout, k)"
  shows "raceOver k (race_timeout h st) \<and> timersIdle room (race_timeout h st)
       \<and> (\<exists>results. outbox (race_timeout h st) = outbox st @ [(ToRoom k, RaceFinished results)])
       \<and> race_timeout h (race_timeout h st) = race_timeout h st"
proof -
  define st1 where "st1 = st\<lparr>timers := filter (\<lambda>t. fst t \<noteq> h) (timers st)\<rparr>"
  have e: "race_timeout h st = endRace k k st1"
    unfolding st1_def by (rule race_timeout_racing[OF live look racing])
  have look1: "map_of (rooms st1) k = Some room" using look by (simp add: st1_def)
  have tm1: "\<forall>t\<in>set (timers st1). snd (snd t) = k \<longrightarrow>
               broadcastInterval room = Some (fst t) \<or> raceTimeout room = Some (fst t)"
    using timers_of_room[OF inv look] by (simp add: st1_def)
  have "timers (endRace k k st1)
          = clearTimer (raceTimeout room) (clearTimer (broadcastInterval room) (timers st1))"
    using look1 racing by (simp add: endRace_unfold)
  moreover have "map_of (timers st1) h = None"
    by (simp add: st1_def map_of_filter_fst_None)
  ultimately have "map_of (timers (endRace k k st1)) h = None"
    by (simp add: map_of_clearTimer_None)
  then have "race_timeout h (endRace k k st1) = endRace k k st1" by (rule race_timeout_gone)
  moreover have "outbox st1 = outbox st" by (simp add: st1_def)
  ultimately show ?thesis
    using endRace_over[OF look1 racing tm1, of k] by (simp add: e)
qed

lemma check_ends_race:
  assumes inv: "invariant st" and look: "map_of (rooms st) k = Some room" and racing: "phase room = Racing"
  shows "(let st1 = st\<lparr>rooms := AList.update k (room\<lparr>players := ps\<rparr>) (rooms st)\<rparr>
          in if allActiveFinished (room\<lparr>players := ps\<rparr>)
             then raceOver k (checkAllFinished k k st1) \<and> timersIdle room (checkAllFinished k k st1)
                  \<and> (\<exists>results. outbox (checkAllFinished k k st1)
                                  = outbox st @ [(ToRoom k, RaceFinished results)])
             else checkAllFinished k k st1 = st1)"
proof -
  define st1 where "st1 = st\<lparr>rooms := AList.update k (room\<lparr>players := ps\<rparr>) (rooms st)\<rparr>"
  have look1: "map_of (rooms st1) k = Some (room\<lparr>players := ps\<rparr>)" by (simp add: st1_def update_conv')
  have r1: "phase (room\<lparr>players := ps\<rparr>) = Racing" using racing by simp
  have tm1: "\<forall>t\<in>set (timers st1). snd (snd t) = k \<longrightarrow>
               broadcastInterval (room\<lparr>players := ps\<rparr>) = Some (fst t)
               \<or> raceTimeout (room\<lparr>players := ps\<rparr>) = Some (fst t)"
    using timers_of_room[OF inv look] by (simp add: st1_def)
  have "outbox st1 = outbox st" by (simp add: st1_def)
  moreover have "timersIdle (room\<lparr>players := ps\<rparr>) x = timersIdle room x" for x
    by (simp add: timersIdle_def)
  ultimately show ?thesis
    using endRace_over[OF look1 r1 tm1, of k] checkAllFinished_if[OF look1, of k]
    unfolding Let_def st1_def[symmetric] by auto
qed

lemma click_ends_race:
  assumes inv: "invariant st" and look: "map_of (rooms st) k = Some room" and racing: "phase room = Racing"
    and pl: "map_of (players room) sid = Some p" and nf: "\<not> truthy (finishedAt p)" and nd: "\<not> disconnected p"
    and last: "99 \<le> clickCount p" and late: "50 \<le> now - lastClickTime p"
    and others: "othersDone sid room"
  shows "raceOver k (click sid k now st) \<and> timersIdle room (click sid k now st)
       \<and> (\<exists>results. outbox (click sid k now st)
             = outbox st @ [(ToRoom k, PlayerFinished sid (finishedCount room + 1)
                                          (sinceStart now (raceStartedAt room))),
                            (ToRoom k, RaceFinished results)])"
proof -
  note rok = room_lookup[OF inv look]
  define p2 where "p2 = (clicked now p)\<lparr>finishedAt := Some now, rank := Some (finishedCount room + 1)\<rparr>"
  define room2 where "room2 = room\<lparr>finishedCount := finishedCount room + 1,
                                    players := AList.update sid p2 (players room)\<rparr>"
  define st2 where "st2 = emit (ToRoom k)
                     (PlayerFinished sid (finishedCount room + 1) (sinceStart now (raceStartedAt room)))
                     (st\<lparr>rooms := AList.update k room2 (rooms st)\<rparr>)"
  from late have late': "\<not> now - lastClickTime p < 50" by simp
  have e: "click sid k now st = checkAllFinished k k st2"
    using click_accepted[OF look racing pl nf nd late'] last by (simp add: st2_def room2_def p2_def)
  have pok: "player_ok p" by (rule player_lookup[OF rok pl])
  with late have "now \<noteq> 0" by (simp add: player_ok_def)
  then have f2: "truthy (finishedAt p2)" by (simp add: p2_def truthy_def)
  have look2: "map_of (rooms st2) k = Some room2" by (simp add: st2_def emit_def update_conv')
  have r2: "phase room2 = Racing" using racing by (simp add: room2_def)
  have d: "distinct (map fst (players room))" using rok by (simp add: room_ok_def)
  have "disconnected (snd kp) \<or> truthy (finishedAt (snd kp))"
    if "kp \<in> set (AList.update sid p2 (players room))" for kp
    using in_set_update_distinctD[OF d that] f2 others by (auto simp: othersDone_def list_all_iff)
  then have all2: "allActiveFinished room2"
    by (auto simp: allActiveFinished_def room2_def list_all_iff)
  have tm2: "\<forall>t\<in>set (timers st2). snd (snd t) = k \<longrightarrow>
               broadcastInterval room2 = Some (fst t) \<or> raceTimeout room2 = Some (fst t)"
    using timers_of_room[OF inv look] by (simp add: st2_def room2_def emit_def)
  have o2: "outbox st2 = outbox st @ [(ToRoom k, PlayerFinished sid (finishedCount room + 1)
                                          (sinceStart now (raceStartedAt room)))]"
    by (simp add: st2_def emit_def)
  have "timersIdle room2 x = timersIdle room x" for x
    by (simp add: timersIdle_def room2_def)
  with endRace_over[OF look2 r2 tm2, of k] checkAllFinished_if[OF look2, of k] all2
  show ?thesis by (simp add: e o2)
qed

lemma disconnect_ends_race:
  assumes inv: "invariant st" and found: "findRoomBySocket sid (rooms st) = Some (k, room)"
    and racing: "phase room = Racing" and others: "othersDone sid room"
  shows "raceOver k (handleDisconnect sid st) \<and> timersIdle room (handleDisconnect sid st)
       \<and> (\<exists>nh results. outbox (handleDisconnect sid st)
             = outbox st @ [(ToRoom k, PlayerLeft sid nh), (ToRoom k, RaceFinished results)])"
proof -
  from findRoomBySocket_SomeD[OF found] obtain player where
    mem: "(k, room) \<in> set (rooms st)" and pl: "map_of (players room) sid = Some player" by auto
  from inv mem have look: "map_of (rooms st) k = Some room" by (auto simp: invariant_def)
  note rok = room_lookup[OF inv look]
  then have code: "code room = k" and d: "distinct (map fst (players room))"
    by (simp_all add: room_ok_def)
  from handleDisconnect_racing[OF found pl racing] obtain nh host where
    hd: "handleDisconnect sid st =
           checkAllFinished k (code room)
             (emit (ToRoom (code room)) (PlayerLeft sid nh)
                (st\<lparr>rooms := AList.update k
                     (room\<lparr>players := AList.update sid (player\<lparr>disconnected := True\<rparr>) (players room),
                           hostSocketId := host\<rparr>)
                     (rooms st)\<rparr>))" by blast
  define room1 where "room1 = room\<lparr>players := AList.update sid (player\<lparr>disconnected := True\<rparr>) (players room),
                                    hostSocketId := host\<rparr>"
  define st1 where "st1 = emit (ToRoom k) (PlayerLeft sid nh) (st\<lparr>rooms := AList.update k room1 (rooms st)\<rparr>)"
  have e: "handleDisconnect sid st = checkAllFinished k k st1"
    by (simp add: hd code st1_def room1_def)
  have look1: "map_of (rooms st1) k = Some room1" by (simp add: st1_def emit_def update_conv')
  have r1: "phase room1 = Racing" using racing by (simp add: room1_def)
  have "disconnected (snd kp) \<or> truthy (finishedAt (snd kp))"
    if "kp \<in> set (AList.update sid (player\<lparr>disconnected := True\<rparr>) (players room))" for kp
    using in_set_update_distinctD[OF d that] others by (auto simp: othersDone_def list_all_iff)
  then have all1: "allActiveFinished room1"
    by (auto simp: allActiveFinished_def room1_def list_all_iff)
  have tm1: "\<forall>t\<in>set (timers st1). snd (snd t) = k \<longrightarrow>
               broadcastInterval room1 = Some (fst t) \<or> raceTimeout room1 = Some (fst t)"
    using timers_of_room[OF inv look] by (simp add: st1_def room1_def emit_def)
  have o1: "outbox st1 = outbox st @ [(ToRoom k, PlayerLeft sid nh)]"
    by (simp add: st1_def emit_def)
  have "timersIdle room1 x = timersIdle room x" for x
    by (simp add: timersIdle_def room1_def)
  with endRace_over[OF look1 r1 tm1, of k] checkAllFinished_if[OF look1, of k] all1
  show ?thesis by (auto simp: e o1)
qed

lemma disconnect_after_race:
  assumes "findRoomBySocket sid (rooms st) = Some (k, room)" "phase room = Finished"
  shows "outbox (handleDisconnect sid st) = outbox st \<and> timers (handleDisconnect sid st) = timers st"
  using assms by (auto simp: handleDisconnect_def Let_def split: option.splits)

subsection \<open>The rooms a connection is in\<close>

lemma memberOf_simps [simp]:
  "memberOf s k (st\<lparr>outbox := x\<rparr>) = memberOf s k st"
  "memberOf s k (st\<lparr>timers := y\<rparr>) = memberOf s k st"
  "memberOf s k (st\<lparr>nextHandle := z\<rparr>) = memberOf s k st"
  "memberOf s k (emit t m st) = memberOf s k st"
  by (simp_all add: memberOf_def emit_def)


lemma memberOf_delete:
  "memberOf s k (st\<lparr>rooms := AList.delete c (rooms st)\<rparr>) = (k \<noteq> c \<and> memberOf s k st)"
  by (simp add: memberOf_def delete_conv')


























subsection \<open>Spellings of a room code\<close>

lemma alphabet_upper:
  "list_all (\<lambda>b. String.ascii_of (upper_char b) = b) ROOM_CODE_ALPHABET"
  by code_simp

lemma letters_upper:
  "list_all (\<lambda>ab. String.ascii_of (upper_char (fst ab)) = snd ab) LETTER_CASES"
  by code_simp

lemma lowercase_not_in_alphabet:
  "list_all (\<lambda>ab. fst ab \<notin> set ROOM_CODE_ALPHABET) LETTER_CASES"
  by code_simp

lemma sameLetter_upper:
  assumes "b \<in> set ROOM_CODE_ALPHABET" "sameLetter a b"
  shows "String.ascii_of (upper_char a) = b"
proof -
  from assms(2) consider "a = b" | "(a, b) \<in> set LETTER_CASES" | "(b, a) \<in> set LETTER_CASES"
    by (auto simp: sameLetter_def)
  then show ?thesis
  proof cases
    case 1
    with assms(1) alphabet_upper show ?thesis by (auto simp: list_all_iff)
  next
    case 2
    with letters_upper show ?thesis by (auto simp: list_all_iff)
  next
    case 3
    with lowercase_not_in_alphabet assms(1) show ?thesis by (auto simp: list_all_iff)
  qed
qed

lemma caseVariant_upper:
  "list_all2 sameLetter s k \<Longrightarrow> list_all (\<lambda>c. c \<in> set ROOM_CODE_ALPHABET) k \<Longrightarrow>
   map (String.ascii_of \<circ> upper_char) s = k"
  by (induction s k rule: list_all2_induct) (auto simp: sameLetter_upper)

lemma normalizeCode_variant:
  assumes "list_all (\<lambda>c. c \<in> set ROOM_CODE_ALPHABET) k" "caseVariant (String.explode spelling) k"
  shows "normalizeCode (Some spelling) = k"
  using caseVariant_upper[OF assms(2)[unfolded caseVariant_def] assms(1)]
  by (simp add: normalizeCode_def toUpperCase_def String.implode.rep_eq)

lemma alphabet_ascii:
  "list_all (\<lambda>b. String.ascii_of b = b) ROOM_CODE_ALPHABET"
  by code_simp

lemma explode_implode_code:
  assumes "list_all (\<lambda>c. c \<in> set ROOM_CODE_ALPHABET) k"
  shows "String.explode (String.implode k) = k"
proof -
  have "map String.ascii_of k = k"
    using assms alphabet_ascii by (intro map_idI) (auto simp: list_all_iff)
  then show ?thesis by (simp add: String.implode.rep_eq)
qed

lemma caseVariant_refl: "caseVariant k k"
  by (simp add: caseVariant_def sameLetter_def list_all2_refl)

lemma codes_simps [simp]:
  "codesFromAlphabet (st\<lparr>outbox := x\<rparr>) = codesFromAlphabet st"
  "codesFromAlphabet (st\<lparr>timers := y\<rparr>) = codesFromAlphabet st"
  "codesFromAlphabet (st\<lparr>nextHandle := z\<rparr>) = codesFromAlphabet st"
  "codesFromAlphabet (emit t m st) = codesFromAlphabet st"
  by (simp_all add: codesFromAlphabet_def emit_def)

lemma codes_lookup:
  "codesFromAlphabet st \<Longrightarrow> map_of (rooms st) k = Some r \<Longrightarrow> list_all (\<lambda>c. c \<in> set ROOM_CODE_ALPHABET) k"
  by (auto simp: codesFromAlphabet_def list_all_iff dest!: map_of_SomeD)

lemma codes_update:
  "codesFromAlphabet st \<Longrightarrow> map_of (rooms st) k = Some r \<Longrightarrow>
   codesFromAlphabet (st\<lparr>rooms := AList.update k r' (rooms st)\<rparr>)"
  using codes_lookup[of st k r]
  by (auto simp: codesFromAlphabet_def list_all_iff dest!: in_set_updateD)

lemma codes_delete:
  "codesFromAlphabet st \<Longrightarrow> codesFromAlphabet (st\<lparr>rooms := AList.delete k (rooms st)\<rparr>)"
  by (auto simp: codesFromAlphabet_def list_all_iff dest!: in_set_deleteD)

lemma codes_delete_update:
  "codesFromAlphabet st \<Longrightarrow> map_of (rooms st) k = Some r \<Longrightarrow>
   codesFromAlphabet (st\<lparr>rooms := AList.delete c (AList.update k r' (rooms st))\<rparr>)"
  using codes_lookup[of st k r]
  by (auto simp: codesFromAlphabet_def list_all_iff dest!: in_set_deleteD in_set_updateD)

lemma codes_endRace: "codesFromAlphabet st \<Longrightarrow> codesFromAlphabet (endRace k c st)"
  by (auto simp: endRace_unfold codesFromAlphabet_def list_all_iff split: option.splits
      dest!: in_set_updateD map_of_SomeD)

lemma codes_checkAllFinished: "codesFromAlphabet st \<Longrightarrow> codesFromAlphabet (checkAllFinished k c st)"
  by (auto simp: checkAllFinished_def Let_def codes_endRace split: option.splits)

lemma generateRoomCode_drawn: "generateRoomCode rs draws = Some c \<Longrightarrow> c \<in> set draws"
  by (induction draws) (auto split: if_splits)

lemma codes_create_room:
  assumes "codesFromAlphabet st" "nanoidDraws (CreateRoom sid nm model now draws)"
    "create_room sid nm model now draws st = Some st'"
  shows "codesFromAlphabet st'"
proof -
  from assms(3) obtain c where c: "generateRoomCode (rooms st) draws = Some c"
    by (auto simp: create_room_def split: option.splits)
  from generateRoomCode_drawn[OF c] assms(2) have "list_all (\<lambda>c. c \<in> set ROOM_CODE_ALPHABET) c"
    by (auto simp: nanoidDraws_def list_all_iff)
  with assms(1,3) c show ?thesis
    by (auto simp: create_room_def Let_def emit_def codesFromAlphabet_def list_all_iff dest!: in_set_updateD)
qed

lemma codes_join_room: "codesFromAlphabet st \<Longrightarrow> codesFromAlphabet (join_room sid c nm model st)"
  by (auto simp: join_room_def Let_def codes_update split: option.splits)

lemma codes_rejoin_room: "codesFromAlphabet st \<Longrightarrow> codesFromAlphabet (rejoin_room sid c nm model st)"
  by (auto simp: rejoin_room_def Let_def codes_update split: option.splits)

lemma codes_start_race: "codesFromAlphabet st \<Longrightarrow> codesFromAlphabet (start_race sid c t1 t2 st)"
  by (auto simp: start_race_def Let_def emit_def codesFromAlphabet_def list_all_iff split: option.splits
      dest!: in_set_updateD map_of_SomeD)

lemma codes_click: "codesFromAlphabet st \<Longrightarrow> codesFromAlphabet (click sid c now st)"
  by (auto simp: click_def Let_def codes_update intro!: codes_checkAllFinished split: option.splits)

lemma codes_reset_room: "codesFromAlphabet st \<Longrightarrow> codesFromAlphabet (reset_room sid c st)"
  by (auto simp: reset_room_def Let_def emit_def codesFromAlphabet_def list_all_iff split: option.splits
      dest!: in_set_updateD map_of_SomeD)

lemma codes_handleDisconnect:
  assumes inv: "invariant st" and ca: "codesFromAlphabet st"
  shows "codesFromAlphabet (handleDisconnect sid st)"
proof (cases "findRoomBySocket sid (rooms st)")
  case None
  then show ?thesis using ca by (simp add: handleDisconnect_def)
next
  case (Some a)
  obtain k room where a: "a = (k, room)" by (cases a)
  from findRoomBySocket_SomeD[OF Some[unfolded a]] obtain player where
    mem: "(k, room) \<in> set (rooms st)" and pl: "map_of (players room) sid = Some player" by auto
  from inv mem have look: "map_of (rooms st) k = Some room" by (auto simp: invariant_def)
  note u = codes_update[OF ca look] codes_delete_update[OF ca look]
  show ?thesis
  proof (cases "phase room")
    case Lobby
    then show ?thesis using Some a pl u by (auto simp: handleDisconnect_def Let_def)
  next
    case Racing
    from handleDisconnect_racing[OF Some[unfolded a] pl Racing] u(1) show ?thesis
      by (auto intro!: codes_checkAllFinished)
  next
    case Finished
    then show ?thesis using Some a pl u by (auto simp: handleDisconnect_def Let_def)
  qed
qed

lemma codes_broadcast_tick: "codesFromAlphabet st \<Longrightarrow> codesFromAlphabet (broadcast_tick h st)"
  by (auto simp: broadcast_tick_def split: option.splits timer_kind.splits)

lemma codes_race_timeout: "codesFromAlphabet st \<Longrightarrow> codesFromAlphabet (race_timeout h st)"
  by (auto simp: race_timeout_def Let_def codes_endRace split: option.splits timer_kind.splits)

lemma codes_sweepRooms: "codesFromAlphabet st \<Longrightarrow> codesFromAlphabet (sweepRooms now rs st)"
proof (induction rs arbitrary: st)
  case Nil
  then show ?case by simp
next
  case (Cons a rs)
  obtain c room where a: "a = (c, room)" by (cases a)
  have "codesFromAlphabet (st\<lparr>timers := ts, rooms := AList.delete c (rooms st)\<rparr>)" for ts
    using Cons.prems by (auto simp: codesFromAlphabet_def list_all_iff dest!: in_set_deleteD)
  with Cons a show ?case by simp
qed

lemma codes_step:
  assumes "invariant st" "codesFromAlphabet st" "nanoidDraws e" "step e st = Some st'"
  shows "codesFromAlphabet st'"
  using assms
  by (cases e)
     (auto simp: codes_join_room codes_rejoin_room codes_start_race codes_click
        codes_reset_room codes_handleDisconnect codes_broadcast_tick codes_race_timeout
        codes_sweepRooms ttl_sweep_def intro: codes_create_room)

lemma codes_run:
  "invariant st \<Longrightarrow> codesFromAlphabet st \<Longrightarrow> list_all nanoidDraws es \<Longrightarrow> run es st = Some st' \<Longrightarrow>
   codesFromAlphabet st'"
proof (induction es arbitrary: st)
  case Nil
  then show ?case by simp
next
  case (Cons e es)
  from Cons.prems(4) obtain st1 where s: "step e st = Some st1" and r: "run es st1 = Some st'"
    by (auto split: option.splits)
  from Cons.prems(3) have d: "nanoidDraws e" "list_all nanoidDraws es" by simp_all
  show ?case
    by (rule Cons.IH[OF inv_step[OF Cons.prems(1) s] codes_step[OF Cons.prems(1,2) d(1) s] d(2) r])
qed

lemma codes_init: "codesFromAlphabet init"
  by (simp add: codesFromAlphabet_def init_def)

subsection \<open>Rooms in the registry\<close>

lemma registered_simps [simp]:
  "registered k (st\<lparr>outbox := x\<rparr>) = registered k st"
  "registered k (st\<lparr>timers := y\<rparr>) = registered k st"
  "registered k (st\<lparr>nextHandle := z\<rparr>) = registered k st"
  "registered k (emit t m st) = registered k st"
  "registered k (st\<lparr>rooms := AList.update c r (rooms st)\<rparr>) = (c = k \<or> registered k st)"
  "registered k (st\<lparr>rooms := AList.delete c (rooms st)\<rparr>) = (c \<noteq> k \<and> registered k st)"
  "registered k (st\<lparr>rooms := AList.delete c (AList.update c' r (rooms st))\<rparr>)
     = (c \<noteq> k \<and> (c' = k \<or> registered k st))"
  by (auto simp: registered_def emit_def update_conv' delete_conv')

lemma registered_endRace: "registered k st \<Longrightarrow> registered k (endRace k' c st)"
  by (auto simp: endRace_unfold registered_def update_conv' split: option.splits)

lemma registered_checkAllFinished: "registered k st \<Longrightarrow> registered k (checkAllFinished k' c st)"
  by (auto simp: checkAllFinished_def Let_def registered_endRace split: option.splits)

lemma registered_create_room:
  "registered k st \<Longrightarrow> create_room sid nm model now draws st = Some st' \<Longrightarrow> registered k st'"
  by (auto simp: create_room_def Let_def split: option.splits)

lemma registered_join_room: "registered k st \<Longrightarrow> registered k (join_room sid c nm model st)"
  by (auto simp: join_room_def Let_def split: option.splits)

lemma registered_rejoin_room: "registered k st \<Longrightarrow> registered k (rejoin_room sid c nm model st)"
  by (auto simp: rejoin_room_def Let_def split: option.splits)

lemma registered_start_race: "registered k st \<Longrightarrow> registered k (start_race sid c t1 t2 st)"
  by (auto simp: start_race_def Let_def emit_def registered_def update_conv' split: option.splits)

lemma registered_click: "registered k st \<Longrightarrow> registered k (click sid c now st)"
  by (auto simp: click_def Let_def registered_checkAllFinished split: option.splits)

lemma registered_reset_room: "registered k st \<Longrightarrow> registered k (reset_room sid c st)"
  by (auto simp: reset_room_def Let_def emit_def registered_def update_conv' split: option.splits)

lemma registered_broadcast_tick: "registered k st \<Longrightarrow> registered k (broadcast_tick h st)"
  by (auto simp: broadcast_tick_def split: option.splits timer_kind.splits)

lemma registered_race_timeout: "registered k st \<Longrightarrow> registered k (race_timeout h st)"
  by (auto simp: race_timeout_def Let_def registered_endRace split: option.splits timer_kind.splits)

lemma delete_all_keys: "AList.delete sid ps = [] \<Longrightarrow> list_all (\<lambda>kp. fst kp = sid) ps"
  by (induction ps) (auto split: if_splits)

lemma registered_handleDisconnect:
  assumes inv: "invariant st" and reg: "registered k st" and keep: "\<not> emptiesRoom k sid st"
  shows "registered k (handleDisconnect sid st)"
proof (cases "findRoomBySocket sid (rooms st)")
  case None
  then show ?thesis using reg by (simp add: handleDisconnect_def)
next
  case (Some a)
  obtain k' room where a: "a = (k', room)" by (cases a)
  from findRoomBySocket_SomeD[OF Some[unfolded a]] obtain player where
    mem: "(k', room) \<in> set (rooms st)" and pl: "map_of (players room) sid = Some player" by auto
  from inv mem have look: "map_of (rooms st) k' = Some room" by (auto simp: invariant_def)
  from room_lookup[OF inv look] have code: "code room = k'" by (simp add: room_ok_def)
  from keep Some a have k: "k' = k \<Longrightarrow> phase room \<noteq> Racing \<Longrightarrow> \<not> list_all (\<lambda>kp. fst kp = sid) (players room)"
    by (simp add: emptiesRoom_def)
  show ?thesis
  proof (cases "phase room")
    case Lobby
    then show ?thesis
      using Some a pl reg code k delete_all_keys[of sid "players room"]
      by (auto simp: handleDisconnect_def Let_def)
  next
    case Racing
    then show ?thesis
      using Some a pl reg
      by (auto simp: handleDisconnect_def Let_def intro!: registered_checkAllFinished)
  next
    case Finished
    then show ?thesis
      using Some a pl reg code k delete_all_keys[of sid "players room"]
      by (auto simp: handleDisconnect_def Let_def)
  qed
qed

lemma registered_sweepRooms:
  assumes "registered k st"
    and "\<And>room. (k, room) \<in> set rs \<Longrightarrow> \<not> now k - createdAt room > TWO_HOURS"
  shows "registered k (sweepRooms now rs st)"
  using assms
proof (induction rs arbitrary: st)
  case Nil
  then show ?case by simp
next
  case (Cons a rs)
  obtain c room where a: "a = (c, room)" by (cases a)
  show ?case
    unfolding a sweepRooms.simps
  proof (rule Cons.IH)
    show "registered k (if now c - createdAt room > TWO_HOURS
        then st\<lparr>timers := clearTimer (raceTimeout room) (clearTimer (broadcastInterval room) (timers st)),
                rooms := AList.delete c (rooms st)\<rparr>
        else st)"
      using Cons.prems a by (auto simp: registered_def delete_conv')
  next
    fix room' assume "(k, room') \<in> set rs"
    then show "\<not> now k - createdAt room' > TWO_HOURS" using Cons.prems(2) by simp
  qed
qed

lemma registered_ttl_sweep:
  assumes inv: "invariant st" and reg: "registered k st" and keep: "\<not> removesRoom k (TtlSweep now) st"
  shows "registered k (ttl_sweep now st)"
  unfolding ttl_sweep_def
proof (rule registered_sweepRooms[OF reg])
  fix room assume "(k, room) \<in> set (rooms st)"
  with inv have "map_of (rooms st) k = Some room" by (auto simp: invariant_def)
  with keep show "\<not> now k - createdAt room > TWO_HOURS" by (simp add: removesRoom_def)
qed

lemma registered_step:
  assumes "invariant st" "registered k st" "\<not> removesRoom k e st" "step e st = Some st'"
  shows "registered k st'"
proof (cases e)
  case (CreateRoom sid nm model now draws)
  with assms show ?thesis by (auto intro: registered_create_room)
next
  case (LeaveRoom sid)
  with assms show ?thesis by (auto simp: removesRoom_def intro: registered_handleDisconnect)
next
  case (Disconnect sid)
  with assms show ?thesis by (auto simp: removesRoom_def intro: registered_handleDisconnect)
next
  case (TtlSweep now)
  with assms show ?thesis by (auto intro: registered_ttl_sweep)
qed (use assms in \<open>auto intro: registered_join_room registered_rejoin_room registered_start_race
      registered_click registered_reset_room registered_broadcast_tick registered_race_timeout\<close>)

lemma registered_run:
  "invariant st \<Longrightarrow> registered k st \<Longrightarrow> keepsRoom k es st \<Longrightarrow> run es st = Some st' \<Longrightarrow> registered k st'"
proof (induction es arbitrary: st)
  case Nil
  then show ?case by simp
next
  case (Cons e es)
  from Cons.prems(4) obtain st1 where s: "step e st = Some st1" and r: "run es st1 = Some st'"
    by (auto split: option.splits)
  from Cons.prems(3) s have k1: "\<not> removesRoom k e st" and k2: "keepsRoom k es st1" by auto
  show ?case
    by (rule Cons.IH[OF inv_step[OF Cons.prems(1) s] registered_step[OF Cons.prems(1,2) k1 s] k2 r])
qed

lemma registered_sweep_back: "registered k (sweepRooms now rs st) \<Longrightarrow> registered k st"
proof (induction rs arbitrary: st)
  case Nil
  then show ?case by simp
next
  case (Cons a rs)
  obtain c room where a: "a = (c, room)" by (cases a)
  from Cons.prems[unfolded a sweepRooms.simps] Cons.IH
  have "registered k (if now c - createdAt room > TWO_HOURS
        then st\<lparr>timers := clearTimer (raceTimeout room) (clearTimer (broadcastInterval room) (timers st)),
                rooms := AList.delete c (rooms st)\<rparr>
        else st)" by blast
  then show ?case by (auto simp: registered_def delete_conv' split: if_splits)
qed

lemma sweep_removes:
  "(k, room) \<in> set rs \<Longrightarrow> now k - createdAt room > TWO_HOURS \<Longrightarrow> \<not> registered k (sweepRooms now rs st)"
proof (induction rs arbitrary: st)
  case Nil
  then show ?case by simp
next
  case (Cons a rs)
  obtain c r where a: "a = (c, r)" by (cases a)
  show ?case
  proof (cases "(k, room) = (c, r)")
    case True
    with Cons.prems(2) have "\<not> registered k (if now c - createdAt r > TWO_HOURS
        then st\<lparr>timers := clearTimer (raceTimeout r) (clearTimer (broadcastInterval r) (timers st)),
                rooms := AList.delete c (rooms st)\<rparr>
        else st)" by (simp add: registered_def delete_conv')
    then show ?thesis unfolding a sweepRooms.simps by (blast dest: registered_sweep_back)
  next
    case False
    with Cons.prems(1) a have "(k, room) \<in> set rs" by auto
    from Cons.IH[OF this Cons.prems(2)] show ?thesis unfolding a sweepRooms.simps .
  qed
qed

lemma delete_only_key: "list_all (\<lambda>kp. fst kp = sid) ps \<Longrightarrow> AList.delete sid ps = []"
  by (induction ps) auto

lemma handleDisconnect_removes:
  assumes inv: "invariant st" and emp: "emptiesRoom k sid st"
  shows "\<not> registered k (handleDisconnect sid st)"
proof -
  from emp obtain room where found: "findRoomBySocket sid (rooms st) = Some (k, room)"
    and nr: "phase room \<noteq> Racing" and only: "list_all (\<lambda>kp. fst kp = sid) (players room)"
    by (auto simp: emptiesRoom_def split: option.splits)
  from findRoomBySocket_SomeD[OF found] obtain player where
    mem: "(k, room) \<in> set (rooms st)" and pl: "map_of (players room) sid = Some player" by auto
  from inv mem have look: "map_of (rooms st) k = Some room" by (auto simp: invariant_def)
  from room_lookup[OF inv look] have code: "code room = k" by (simp add: room_ok_def)
  from found pl nr code delete_only_key[OF only] show ?thesis
    by (cases "phase room") (auto simp: handleDisconnect_def Let_def)
qed

lemma removes_step:
  assumes inv: "invariant st" and rem: "removesRoom k e st" and s: "step e st = Some st'"
  shows "\<not> registered k st'"
proof (cases e)
  case (LeaveRoom sid)
  with rem s handleDisconnect_removes[OF inv, of k sid] show ?thesis by (auto simp: removesRoom_def)
next
  case (Disconnect sid)
  with rem s handleDisconnect_removes[OF inv, of k sid] show ?thesis by (auto simp: removesRoom_def)
next
  case (TtlSweep now)
  with rem obtain room where r: "map_of (rooms st) k = Some room" "now k - createdAt room > TWO_HOURS"
    by (auto simp: removesRoom_def split: option.splits)
  from r(1) have "(k, room) \<in> set (rooms st)" by (rule map_of_SomeD)
  from sweep_removes[of k room "rooms st" now st, OF this r(2)] TtlSweep s show ?thesis
    by (auto simp: ttl_sweep_def)
qed (use rem in \<open>simp_all add: removesRoom_def\<close>)

section \<open>Properties\<close>

subsection \<open>Clicks\<close>

text \<open>
  C1. In any state the server can reach, a player's progress equals the click counter.
  For a player of a racing room who is neither finished nor disconnected, a click is
  dropped (the state stays as it is) when less than 50ms have passed since the last
  accepted one, and otherwise accepted: the time is recorded, the counter grows by one,
  capped at 100, and progress follows it. Over any sequence of clicks, from any sockets
  at any times, the player's progress never decreases.
\<close>

theorem click_throttle_and_progress:
  assumes reach: "run es init = Some st"
    and look: "map_of (rooms st) c = Some room"
    and pl: "map_of (players room) sid = Some p"
  shows "progress p = clickCount p
       \<and> (phase room = Racing \<and> \<not> truthy (finishedAt p) \<and> \<not> disconnected p \<longrightarrow>
            (if now - lastClickTime p < 50 then click sid c now st = st
             else \<exists>room' p'. map_of (rooms (click sid c now st)) c = Some room'
                    \<and> map_of (players room') sid = Some p'
                    \<and> lastClickTime p' = now
                    \<and> clickCount p' = min 100 (clickCount p + 1)
                    \<and> progress p' = clickCount p'))
       \<and> (\<exists>st' room' p'. run (clickEvents cs) st = Some st'
             \<and> map_of (rooms st') c = Some room' \<and> map_of (players room') sid = Some p'
             \<and> progress p \<le> progress p' \<and> progress p' = clickCount p')"
proof -
  have inv: "invariant st" using inv_run[OF invariant_init reach] .
  have A: "progress p = clickCount p"
    using player_lookup[OF room_lookup[OF inv look] pl] by (simp add: player_ok_def)
  have B: "click sid c now st = st" if "now - lastClickTime p < 50"
    using click_rejected[OF look pl that] .
  have C: "\<exists>room' p'. map_of (rooms (click sid c now st)) c = Some room'
                    \<and> map_of (players room') sid = Some p'
                    \<and> lastClickTime p' = now
                    \<and> clickCount p' = min 100 (clickCount p + 1)
                    \<and> progress p' = clickCount p'"
    if acc: "phase room = Racing" "\<not> truthy (finishedAt p)" "\<not> disconnected p" "\<not> now - lastClickTime p < 50"
  proof -
    from click_player[OF inv look pl, of sid c now] acc obtain r' q' where
      1: "map_of (rooms (click sid c now st)) c = Some r'" "map_of (players r') sid = Some q'"
         "lastClickTime q' = now" "clickCount q' = min 100 (clickCount p + 1)" by auto
    have "player_ok q'"
      using player_lookup[OF room_lookup[OF inv_click[OF inv] 1(1)] 1(2)] .
    with 1 show ?thesis by (auto simp: player_ok_def)
  qed
  have D: "\<exists>st' room' p'. run (clickEvents cs) st = Some st'
             \<and> map_of (rooms st') c = Some room' \<and> map_of (players room') sid = Some p'
             \<and> progress p \<le> progress p' \<and> progress p' = clickCount p'"
  proof -
    from clicks_player[OF inv look pl, of cs] obtain st' r' q' where
      1: "run (clickEvents cs) st = Some st'" "invariant st'"
         "map_of (rooms st') c = Some r'" "map_of (players r') sid = Some q'" "progress p \<le> progress q'"
      by blast
    have "player_ok q'" using player_lookup[OF room_lookup[OF 1(2,3)] 1(4)] .
    with 1 show ?thesis by (auto simp: player_ok_def)
  qed
  from A B C D show ?thesis by auto
qed

theorem click_throttle_and_progress_witness:
  "run raceOfTwo init = Some (stateAfter raceOfTwo)
   \<and> map_of (rooms (stateAfter raceOfTwo)) ''ROOM01'' = Some racingRoomOfTwo
   \<and> map_of (players racingRoomOfTwo) ''A'' = Some (new_player ''A'' None None ''#C0C0C0'')
   \<and> progress (new_player ''A'' None None ''#C0C0C0'') = clickCount (new_player ''A'' None None ''#C0C0C0'')
   \<and> click ''A'' ''ROOM01'' 20 (stateAfter raceOfTwo) = stateAfter raceOfTwo"
proof -
  have h1: "run raceOfTwo init = Some (stateAfter raceOfTwo)" by code_simp
  have h2: "map_of (rooms (stateAfter raceOfTwo)) ''ROOM01'' = Some racingRoomOfTwo" by code_simp
  have h3: "map_of (players racingRoomOfTwo) ''A'' = Some (new_player ''A'' None None ''#C0C0C0'')"
    by (simp add: racingRoomOfTwo_def)
  have h4: "phase racingRoomOfTwo = Racing" by (simp add: racingRoomOfTwo_def)
  have h5: "\<not> truthy (finishedAt (new_player ''A'' None None ''#C0C0C0''))"
    "\<not> disconnected (new_player ''A'' None None ''#C0C0C0'')"
    "lastClickTime (new_player ''A'' None None ''#C0C0C0'') = 0"
    by (simp_all add: new_player_def truthy_def)
  from click_throttle_and_progress[OF h1 h2 h3, of 20 "[]"] h1 h2 h3 h4 h5
  show ?thesis by simp
qed

subsection \<open>Final standings\<close>




subsection \<open>The end of a race\<close>

text \<open>
  C3. Ending a race is idempotent, whichever trigger comes first. For a racing room of
  a reachable state: \<open>endRace\<close> sets the phase to finished, clears the room's broadcast
  interval and race timeout, so that no live timer is left for the room and the
  callbacks under the room's two handles change nothing any more, and sends
  \<open>race-finished\<close> once. The race timeout, when it fires, does the same, and cannot
  fire again. \<open>checkAllFinished\<close>, called on the room with the players a handler has
  just written, does the same when every player who is not disconnected has finished,
  and nothing otherwise. The click that finishes a player, when every other player is
  disconnected or has finished, sends \<open>player-finished\<close> and ends the race in this
  way; so does the leave-room or disconnect of a player, after \<open>player-left\<close>, when
  every other player is disconnected or has finished.

  In any state in which the room is finished with no live timer, every later trigger
  changes nothing: \<open>endRace\<close>, \<open>checkAllFinished\<close> and a click return the state as it
  is, no timeout or broadcast callback of the room is left to run, and the leave-room or
  disconnect of one of its players, which never reaches the check in the finished
  phase, sends nothing and touches no timer. In every reachable state each live timer
  belongs to a racing room that holds its handle.
\<close>

theorem endRace_idempotent:
  assumes reach: "run es init = Some st"
    and look: "map_of (rooms st) k = Some room"
    and racing: "phase room = Racing"
  shows "(\<exists>room' results.
           map_of (rooms (endRace k c st)) k = Some room' \<and> phase room' = Finished
         \<and> outbox (endRace k c st) = outbox st @ [(ToRoom c, RaceFinished results)]
         \<and> timers (endRace k c st)
             = clearTimer (raceTimeout room) (clearTimer (broadcastInterval room) (timers st))
         \<and> k \<notin> set (map (snd \<circ> snd) (timers (endRace k c st)))
         \<and> endRace k c (endRace k c st) = endRace k c st
         \<and> checkAllFinished k c (endRace k c st) = endRace k c st
         \<and> click sid k now (endRace k c st) = endRace k c st
         \<and> timersIdle room (endRace k c st)
         \<and> list_all (timer_ok (rooms st)) (timers st))
       \<and> (map_of (timers st) h = Some (RaceTimeout, k) \<longrightarrow>
            raceOver k (race_timeout h st) \<and> timersIdle room (race_timeout h st)
          \<and> (\<exists>results. outbox (race_timeout h st) = outbox st @ [(ToRoom k, RaceFinished results)])
          \<and> race_timeout h (race_timeout h st) = race_timeout h st)
       \<and> (let st1 = st\<lparr>rooms := AList.update k (room\<lparr>players := ps\<rparr>) (rooms st)\<rparr>
          in if allActiveFinished (room\<lparr>players := ps\<rparr>)
             then raceOver k (checkAllFinished k k st1) \<and> timersIdle room (checkAllFinished k k st1)
                  \<and> (\<exists>results. outbox (checkAllFinished k k st1)
                                  = outbox st @ [(ToRoom k, RaceFinished results)])
             else checkAllFinished k k st1 = st1)
       \<and> (map_of (players room) sid = Some p \<and> \<not> truthy (finishedAt p) \<and> \<not> disconnected p
            \<and> 99 \<le> clickCount p \<and> 50 \<le> now - lastClickTime p \<and> othersDone sid room \<longrightarrow>
            raceOver k (click sid k now st) \<and> timersIdle room (click sid k now st)
          \<and> (\<exists>results. outbox (click sid k now st)
                = outbox st @ [(ToRoom k, PlayerFinished sid (finishedCount room + 1)
                                             (sinceStart now (raceStartedAt room))),
                               (ToRoom k, RaceFinished results)]))
       \<and> (findRoomBySocket sid (rooms st) = Some (k, room) \<and> othersDone sid room \<longrightarrow>
            raceOver k (handleDisconnect sid st) \<and> timersIdle room (handleDisconnect sid st)
          \<and> (\<exists>nh results. outbox (handleDisconnect sid st)
                = outbox st @ [(ToRoom k, PlayerLeft sid nh), (ToRoom k, RaceFinished results)]))
       \<and> (raceOver k st' \<longrightarrow>
            endRace k c st' = st' \<and> checkAllFinished k c st' = st' \<and> click sid k now st' = st'
          \<and> map_of (timers st') h \<noteq> Some (RaceTimeout, k)
          \<and> map_of (timers st') h \<noteq> Some (BroadcastLoop, k)
          \<and> (findRoomBySocket sid (rooms st') = Some (k, roomF) \<and> phase roomF = Finished \<longrightarrow>
                outbox (handleDisconnect sid st') = outbox st'
              \<and> timers (handleDisconnect sid st') = timers st'))"
proof -
  have inv: "invariant st" using inv_run[OF invariant_init reach] .
  have A: "\<exists>room' results.
           map_of (rooms (endRace k c st)) k = Some room' \<and> phase room' = Finished
         \<and> outbox (endRace k c st) = outbox st @ [(ToRoom c, RaceFinished results)]
         \<and> timers (endRace k c st)
             = clearTimer (raceTimeout room) (clearTimer (broadcastInterval room) (timers st))
         \<and> k \<notin> set (map (snd \<circ> snd) (timers (endRace k c st)))
         \<and> endRace k c (endRace k c st) = endRace k c st
         \<and> checkAllFinished k c (endRace k c st) = endRace k c st
         \<and> click sid k now (endRace k c st) = endRace k c st
         \<and> timersIdle room (endRace k c st)
         \<and> list_all (timer_ok (rooms st)) (timers st)"
  proof -
    from endRace_racing[OF look racing, of c] obtain room' results where
      e: "endRace k c st =
               st\<lparr>rooms := AList.update k room' (rooms st),
                  timers := clearTimer (raceTimeout room) (clearTimer (broadcastInterval room) (timers st)),
                  outbox := outbox st @ [(ToRoom c, RaceFinished results)]\<rparr>"
      and fin: "phase room' = Finished" by blast
    have l': "map_of (rooms (endRace k c st)) k = Some room'"
      by (simp add: e update_conv')
    have over: "raceOver k (endRace k c st)"
      by (rule endRace_over(1)[OF look racing timers_of_room[OF inv look]])
    then have "k \<notin> set (map (snd \<circ> snd) (timers (endRace k c st)))"
      by (simp add: raceOver_def)
    moreover have "timersIdle room (endRace k c st)"
      by (rule endRace_over(3)[OF look racing timers_of_room[OF inv look]])
    moreover have "list_all (timer_ok (rooms st)) (timers st)"
      using inv by (simp add: invariant_def)
    ultimately show ?thesis
      using l' fin raceOver_noop(1-3)[OF over]
      by (intro exI[of _ room'] exI[of _ results]) (simp add: e)
  qed
  have B: "raceOver k (race_timeout h st) \<and> timersIdle room (race_timeout h st)
          \<and> (\<exists>results. outbox (race_timeout h st) = outbox st @ [(ToRoom k, RaceFinished results)])
          \<and> race_timeout h (race_timeout h st) = race_timeout h st"
    if "map_of (timers st) h = Some (RaceTimeout, k)"
    by (rule timeout_ends_race[OF inv look racing that])
  note C = check_ends_race[OF inv look racing, of ps]
  have D: "raceOver k (click sid k now st) \<and> timersIdle room (click sid k now st)
          \<and> (\<exists>results. outbox (click sid k now st)
                = outbox st @ [(ToRoom k, PlayerFinished sid (finishedCount room + 1)
                                             (sinceStart now (raceStartedAt room))),
                               (ToRoom k, RaceFinished results)])"
    if "map_of (players room) sid = Some p" "\<not> truthy (finishedAt p)" "\<not> disconnected p"
       "99 \<le> clickCount p" "50 \<le> now - lastClickTime p" "othersDone sid room"
    by (rule click_ends_race[OF inv look racing that])
  have E: "raceOver k (handleDisconnect sid st) \<and> timersIdle room (handleDisconnect sid st)
          \<and> (\<exists>nh results. outbox (handleDisconnect sid st)
                = outbox st @ [(ToRoom k, PlayerLeft sid nh), (ToRoom k, RaceFinished results)])"
    if "findRoomBySocket sid (rooms st) = Some (k, room)" "othersDone sid room"
    by (rule disconnect_ends_race[OF inv that(1) racing that(2)])
  have F: "endRace k c st' = st' \<and> checkAllFinished k c st' = st' \<and> click sid k now st' = st'
          \<and> map_of (timers st') h \<noteq> Some (RaceTimeout, k)
          \<and> map_of (timers st') h \<noteq> Some (BroadcastLoop, k)
          \<and> (findRoomBySocket sid (rooms st') = Some (k, roomF) \<and> phase roomF = Finished \<longrightarrow>
                outbox (handleDisconnect sid st') = outbox st'
              \<and> timers (handleDisconnect sid st') = timers st')"
    if "raceOver k st'"
    using raceOver_noop[OF that] disconnect_after_race[of sid st' k roomF] by blast
  from A B C D E F show ?thesis by blast
qed

theorem endRace_idempotent_witness:
  "run raceOfTwo init = Some (stateAfter raceOfTwo)
   \<and> map_of (rooms (stateAfter raceOfTwo)) ''ROOM01'' = Some racingRoomOfTwo
   \<and> phase racingRoomOfTwo = Racing
   \<and> map_of (timers (stateAfter raceOfTwo)) 1 = Some (RaceTimeout, ''ROOM01'')
   \<and> raceOver ''ROOM01'' (race_timeout 1 (stateAfter raceOfTwo))
   \<and> race_timeout 1 (race_timeout 1 (stateAfter raceOfTwo)) = race_timeout 1 (stateAfter raceOfTwo)
   \<and> endRace ''ROOM01'' ''ROOM01'' (race_timeout 1 (stateAfter raceOfTwo))
       = race_timeout 1 (stateAfter raceOfTwo)
   \<and> findRoomBySocket ''B'' (rooms (race_timeout 1 (stateAfter raceOfTwo))) = Some (''ROOM01'', timedOutRoom)
   \<and> phase timedOutRoom = Finished
   \<and> outbox (handleDisconnect ''B'' (race_timeout 1 (stateAfter raceOfTwo)))
       = outbox (race_timeout 1 (stateAfter raceOfTwo))
   \<and> ''ROOM01'' \<notin> set (map (snd \<circ> snd) (timers (endRace ''ROOM01'' ''ROOM01'' (stateAfter raceOfTwo))))
   \<and> endRace ''ROOM01'' ''ROOM01'' (endRace ''ROOM01'' ''ROOM01'' (stateAfter raceOfTwo))
       = endRace ''ROOM01'' ''ROOM01'' (stateAfter raceOfTwo)
   \<and> run (raceOfOne @ clicks ''A'' ''ROOM01'' 5000 99) init
       = Some (stateAfter (raceOfOne @ clicks ''A'' ''ROOM01'' 5000 99))
   \<and> map_of (rooms (stateAfter (raceOfOne @ clicks ''A'' ''ROOM01'' 5000 99))) ''ROOM01''
       = Some lastLapRoomOfOne
   \<and> othersDone ''A'' lastLapRoomOfOne
   \<and> raceOver ''ROOM01'' (click ''A'' ''ROOM01'' 9950 (stateAfter (raceOfOne @ clicks ''A'' ''ROOM01'' 5000 99)))
   \<and> race_timeout 1 (click ''A'' ''ROOM01'' 9950 (stateAfter (raceOfOne @ clicks ''A'' ''ROOM01'' 5000 99)))
       = click ''A'' ''ROOM01'' 9950 (stateAfter (raceOfOne @ clicks ''A'' ''ROOM01'' 5000 99))
   \<and> run raceOfOne init = Some (stateAfter raceOfOne)
   \<and> findRoomBySocket ''A'' (rooms (stateAfter raceOfOne)) = Some (''ROOM01'', racingRoomOfOne)
   \<and> othersDone ''A'' racingRoomOfOne
   \<and> raceOver ''ROOM01'' (handleDisconnect ''A'' (stateAfter raceOfOne))"
proof -
  have h1: "run raceOfTwo init = Some (stateAfter raceOfTwo)" by code_simp
  have h2: "map_of (rooms (stateAfter raceOfTwo)) ''ROOM01'' = Some racingRoomOfTwo" by code_simp
  have h3: "phase racingRoomOfTwo = Racing" by (simp add: racingRoomOfTwo_def)
  have h4: "map_of (timers (stateAfter raceOfTwo)) 1 = Some (RaceTimeout, ''ROOM01'')" by code_simp
  note t = endRace_idempotent[OF h1 h2 h3, where h = 1 and c = "''ROOM01''"
      and st' = "race_timeout 1 (stateAfter raceOfTwo)"]
  from t h4 have a: "raceOver ''ROOM01'' (race_timeout 1 (stateAfter raceOfTwo))
      \<and> race_timeout 1 (race_timeout 1 (stateAfter raceOfTwo)) = race_timeout 1 (stateAfter raceOfTwo)"
    by blast
  with t have b: "endRace ''ROOM01'' ''ROOM01'' (race_timeout 1 (stateAfter raceOfTwo))
       = race_timeout 1 (stateAfter raceOfTwo)" by blast
  have f1: "findRoomBySocket ''B'' (rooms (race_timeout 1 (stateAfter raceOfTwo))) = Some (''ROOM01'', timedOutRoom)"
    by code_simp
  have f2: "phase timedOutRoom = Finished" by (simp add: timedOutRoom_def)
  from endRace_idempotent[OF h1 h2 h3, where st' = "race_timeout 1 (stateAfter raceOfTwo)"
      and sid = "''B''" and roomF = timedOutRoom] a f1 f2
  have f3: "outbox (handleDisconnect ''B'' (race_timeout 1 (stateAfter raceOfTwo)))
       = outbox (race_timeout 1 (stateAfter raceOfTwo))" by blast
  from t have c: "''ROOM01'' \<notin> set (map (snd \<circ> snd) (timers (endRace ''ROOM01'' ''ROOM01'' (stateAfter raceOfTwo))))
   \<and> endRace ''ROOM01'' ''ROOM01'' (endRace ''ROOM01'' ''ROOM01'' (stateAfter raceOfTwo))
       = endRace ''ROOM01'' ''ROOM01'' (stateAfter raceOfTwo)" by blast
  have k1: "run (raceOfOne @ clicks ''A'' ''ROOM01'' 5000 99) init
       = Some (stateAfter (raceOfOne @ clicks ''A'' ''ROOM01'' 5000 99))" by code_simp
  have k2: "map_of (rooms (stateAfter (raceOfOne @ clicks ''A'' ''ROOM01'' 5000 99))) ''ROOM01''
       = Some lastLapRoomOfOne" by code_simp
  have k3: "phase lastLapRoomOfOne = Racing" by (simp add: lastLapRoomOfOne_def)
  have k4: "map_of (players lastLapRoomOfOne) ''A''
              = Some ((new_player ''A'' None None ''#C0C0C0'')
                        \<lparr>progress := 99, clickCount := 99, lastClickTime := 9900\<rparr>)"
    by (simp add: lastLapRoomOfOne_def)
  have k5: "\<not> truthy (finishedAt ((new_player ''A'' None None ''#C0C0C0'')
                        \<lparr>progress := 99, clickCount := 99, lastClickTime := 9900\<rparr>))"
    "\<not> disconnected ((new_player ''A'' None None ''#C0C0C0'')
                        \<lparr>progress := 99, clickCount := 99, lastClickTime := 9900\<rparr>)"
    "99 \<le> clickCount ((new_player ''A'' None None ''#C0C0C0'')
                        \<lparr>progress := 99, clickCount := 99, lastClickTime := 9900\<rparr>)"
    "50 \<le> 9950 - lastClickTime ((new_player ''A'' None None ''#C0C0C0'')
                        \<lparr>progress := 99, clickCount := 99, lastClickTime := 9900\<rparr>)"
    by (simp_all add: new_player_def truthy_def)
  have k6: "othersDone ''A'' lastLapRoomOfOne" by (simp add: othersDone_def lastLapRoomOfOne_def)
  from endRace_idempotent[OF k1 k2 k3, where sid = "''A''" and now = 9950] k4 k5 k6
  have d: "raceOver ''ROOM01'' (click ''A'' ''ROOM01'' 9950 (stateAfter (raceOfOne @ clicks ''A'' ''ROOM01'' 5000 99)))
      \<and> timersIdle lastLapRoomOfOne
            (click ''A'' ''ROOM01'' 9950 (stateAfter (raceOfOne @ clicks ''A'' ''ROOM01'' 5000 99)))"
    by blast
  have k7: "raceTimeout lastLapRoomOfOne = Some 1" by (simp add: lastLapRoomOfOne_def)
  from d have d2: "race_timeout 1 (click ''A'' ''ROOM01'' 9950 (stateAfter (raceOfOne @ clicks ''A'' ''ROOM01'' 5000 99)))
       = click ''A'' ''ROOM01'' 9950 (stateAfter (raceOfOne @ clicks ''A'' ''ROOM01'' 5000 99))"
    by (simp add: timersIdle_def k7)
  have m1: "run raceOfOne init = Some (stateAfter raceOfOne)" by code_simp
  have m2: "findRoomBySocket ''A'' (rooms (stateAfter raceOfOne)) = Some (''ROOM01'', racingRoomOfOne)"
    by code_simp
  have m3: "map_of (rooms (stateAfter raceOfOne)) ''ROOM01'' = Some racingRoomOfOne" by code_simp
  have m4: "phase racingRoomOfOne = Racing" by (simp add: racingRoomOfOne_def)
  have m5: "othersDone ''A'' racingRoomOfOne" by (simp add: othersDone_def racingRoomOfOne_def)
  from endRace_idempotent[OF m1 m3 m4, where sid = "''A''"] m2 m5
  have e: "raceOver ''ROOM01'' (handleDisconnect ''A'' (stateAfter raceOfOne))" by blast
  from h1 h2 h3 h4 a b c f1 f2 f3 k1 k2 k6 d d2 m1 m2 m5 e show ?thesis by blast
qed

subsection \<open>Play again\<close>

text \<open>
  C4, as the code has it. A reset-room from a socket that is not the room's host leaves
  the state as it is, and one received in the lobby phase leaves the rooms as they are.
  A reset-room from the host returns the room to the lobby with the same players, each
  with progress, click counter, last click time, finish time, rank, dnf and disconnected
  back at their defaults. The handler has no phase guard: the host's reset-room takes
  effect during a race as well.
\<close>

theorem reset_room_host_only:
  assumes reach: "run es init = Some st"
    and look: "map_of (rooms st) c = Some room"
  shows "(hostSocketId room \<noteq> sid \<longrightarrow> reset_room sid c st = st)
       \<and> (phase room = Lobby \<longrightarrow> rooms (reset_room sid c st) = rooms st)
       \<and> (hostSocketId room = sid \<longrightarrow>
            (\<exists>room'. map_of (rooms (reset_room sid c st)) c = Some room'
               \<and> phase room' = Lobby
               \<and> map fst (players room') = map fst (players room)
               \<and> list_all (\<lambda>kp. progress (snd kp) = 0 \<and> clickCount (snd kp) = 0
                                  \<and> lastClickTime (snd kp) = 0 \<and> finishedAt (snd kp) = None
                                  \<and> rank (snd kp) = None \<and> \<not> dnf (snd kp)
                                  \<and> \<not> disconnected (snd kp)) (players room')))"
proof -
  have inv: "invariant st" using inv_run[OF invariant_init reach] .
  note rok = room_lookup[OF inv look]
  have a: "hostSocketId room \<noteq> sid \<longrightarrow> reset_room sid c st = st"
    using look by (simp add: reset_room_def)
  have b: "phase room = Lobby \<longrightarrow> rooms (reset_room sid c st) = rooms st"
    using look room_ok_lobby_reset[OF rok]
    by (auto simp: reset_room_def Let_def emit_def update_triv)
  have "map fst (map (\<lambda>(k, p). (k, resetPlayer p)) (players room)) = map fst (players room)"
    by (induction "players room") auto
  then have c: "hostSocketId room = sid \<longrightarrow>
            (\<exists>room'. map_of (rooms (reset_room sid c st)) c = Some room'
               \<and> phase room' = Lobby
               \<and> map fst (players room') = map fst (players room)
               \<and> list_all (\<lambda>kp. progress (snd kp) = 0 \<and> clickCount (snd kp) = 0
                                  \<and> lastClickTime (snd kp) = 0 \<and> finishedAt (snd kp) = None
                                  \<and> rank (snd kp) = None \<and> \<not> dnf (snd kp)
                                  \<and> \<not> disconnected (snd kp)) (players room'))"
    using look
    by (auto simp: reset_room_def Let_def emit_def update_conv' list_all_iff resetPlayer_def simp del: map_map)
  from a b c show ?thesis by blast
qed

theorem reset_room_host_only_witness:
  "run (raceOfTwo @ [RaceTimeoutFires 1]) init = Some (stateAfter (raceOfTwo @ [RaceTimeoutFires 1]))
   \<and> map_of (rooms (stateAfter (raceOfTwo @ [RaceTimeoutFires 1]))) ''ROOM01'' = Some timedOutRoom
   \<and> reset_room ''B'' ''ROOM01'' (stateAfter (raceOfTwo @ [RaceTimeoutFires 1]))
       = stateAfter (raceOfTwo @ [RaceTimeoutFires 1])
   \<and> map_option phase (roomAt ''ROOM01'' (reset_room ''A'' ''ROOM01'' (stateAfter (raceOfTwo @ [RaceTimeoutFires 1]))))
       = Some Lobby"
proof -
  have h1: "run (raceOfTwo @ [RaceTimeoutFires 1]) init = Some (stateAfter (raceOfTwo @ [RaceTimeoutFires 1]))"
    by code_simp
  have h2: "map_of (rooms (stateAfter (raceOfTwo @ [RaceTimeoutFires 1]))) ''ROOM01'' = Some timedOutRoom"
    by code_simp
  have h3: "hostSocketId timedOutRoom = ''A''" by (simp add: timedOutRoom_def)
  from reset_room_host_only[OF h1 h2, of "''B''"] reset_room_host_only[OF h1 h2, of "''A''"] h1 h2 h3
  show ?thesis by (auto simp: roomAt_def)
qed

text \<open>
  C4 as the specification words it fails while racing: A starts a race alone and sends reset-room
  during it; the room goes from racing back to the lobby and its two timers are
  cleared.
\<close>

theorem reset_while_racing_counterexample:
  "map_option phase (after raceOfOne ''ROOM01'') = Some Racing
   \<and> map_option timers (run raceOfOne init)
       = Some [(0, BroadcastLoop, ''ROOM01''), (1, RaceTimeout, ''ROOM01'')]
   \<and> map_option phase (after (raceOfOne @ [ResetRoom ''A'' ''ROOM01'']) ''ROOM01'') = Some Lobby
   \<and> map_option timers (run (raceOfOne @ [ResetRoom ''A'' ''ROOM01'']) init) = Some []"
  by code_simp

subsection \<open>Host privileges\<close>

text \<open>
  C5. The host of a non-empty room should always be one of its players, with host
  privileges handed on whenever the host leaves, in any phase. In the finished phase
  \<open>handleDisconnect\<close> only removes the player: after A creates a room, B joins, A starts
  the race, the race times out and A disconnects, the room holds B alone and its
  \<open>hostSocketId\<close> is still A.
\<close>

theorem host_leaves_finished_room:
  "map_option phase (after (raceOfTwo @ [RaceTimeoutFires 1, Disconnect ''A'']) ''ROOM01'')
     = Some Finished
   \<and> map_option memberIds (after (raceOfTwo @ [RaceTimeoutFires 1, Disconnect ''A'']) ''ROOM01'')
     = Some [''B'']
   \<and> map_option hostSocketId (after (raceOfTwo @ [RaceTimeoutFires 1, Disconnect ''A'']) ''ROOM01'')
     = Some ''A''"
  by code_simp

subsection \<open>One room per connection\<close>




subsection \<open>The first finisher\<close>

text \<open>
  C7, as the code has it. The server never sends \<open>first-finisher-countdown\<close>. When the
  first player of a racing room finishes, the handler sends \<open>player-finished\<close> with
  rank 1 to the room, followed only by \<open>race-finished\<close> when that ends the race.
\<close>

theorem first_finisher_only_player_finished:
  assumes look: "map_of (rooms st) c = Some room" and "phase room = Racing"
    and "finishedCount room = 0"
    and "map_of (players room) sid = Some p" and "\<not> truthy (finishedAt p)" and "\<not> disconnected p"
    and "clickCount p = 99" and "50 \<le> now - lastClickTime p"
  shows "''first-finisher-countdown'' \<notin> set (sent (click sid c now st))
       \<and> (sent (click sid c now st) = sent st @ [''player-finished'']
          \<or> sent (click sid c now st) = sent st @ [''player-finished'', ''race-finished''])
       \<and> (ToRoom c, PlayerFinished sid 1 (sinceStart now (raceStartedAt room)))
            \<in> set (outbox (click sid c now st))"
proof -
  define st2 where "st2 = emit (ToRoom c) (PlayerFinished sid (finishedCount room + 1) (sinceStart now (raceStartedAt room)))
                     (st\<lparr>rooms := AList.update c
                          (room\<lparr>finishedCount := finishedCount room + 1,
                                players := AList.update sid
                                  ((clicked now p)\<lparr>finishedAt := Some now, rank := Some (finishedCount room + 1)\<rparr>)
                                  (players room)\<rparr>) (rooms st)\<rparr>)"
  have e: "click sid c now st = checkAllFinished c c st2"
    using click_accepted[OF assms(1,2,4,5,6), of now] assms(7,8) by (simp add: st2_def)
  have o: "outbox st2 = outbox st @ [(ToRoom c, PlayerFinished sid 1 (sinceStart now (raceStartedAt room)))]"
    using assms(3) by (simp add: emit_def st2_def)
  from checkAllFinished_outbox[of c c st2] show ?thesis
    using sent_never_countdown[of "click sid c now st"]
    by (auto simp: e o sent_def)
qed

theorem first_finisher_only_player_finished_witness:
  "map_of (rooms (stateAfter (raceOfTwo @ clicks ''A'' ''ROOM01'' 5000 99))) ''ROOM01'' = Some lastLapRoom
   \<and> (ToRoom ''ROOM01'', PlayerFinished ''A'' 1 8950)
       \<in> set (outbox (click ''A'' ''ROOM01'' 9950 (stateAfter (raceOfTwo @ clicks ''A'' ''ROOM01'' 5000 99))))
   \<and> ''first-finisher-countdown''
       \<notin> set (sent (click ''A'' ''ROOM01'' 9950 (stateAfter (raceOfTwo @ clicks ''A'' ''ROOM01'' 5000 99))))"
proof -
  have h1: "map_of (rooms (stateAfter (raceOfTwo @ clicks ''A'' ''ROOM01'' 5000 99))) ''ROOM01'' = Some lastLapRoom"
    by code_simp
  have h2: "phase lastLapRoom = Racing" "finishedCount lastLapRoom = 0"
    "raceStartedAt lastLapRoom = Some 1000"
    by (simp_all add: lastLapRoom_def)
  have h3: "map_of (players lastLapRoom) ''A''
              = Some ((new_player ''A'' None None ''#C0C0C0'')
                        \<lparr>progress := 99, clickCount := 99, lastClickTime := 9900\<rparr>)"
    by (simp add: lastLapRoom_def)
  have h4: "\<not> truthy (finishedAt ((new_player ''A'' None None ''#C0C0C0'')
                        \<lparr>progress := 99, clickCount := 99, lastClickTime := 9900\<rparr>))"
    "\<not> disconnected ((new_player ''A'' None None ''#C0C0C0'')
                        \<lparr>progress := 99, clickCount := 99, lastClickTime := 9900\<rparr>)"
    "clickCount ((new_player ''A'' None None ''#C0C0C0'')
                        \<lparr>progress := 99, clickCount := 99, lastClickTime := 9900\<rparr>) = 99"
    "50 \<le> 9950 - lastClickTime ((new_player ''A'' None None ''#C0C0C0'')
                        \<lparr>progress := 99, clickCount := 99, lastClickTime := 9900\<rparr>)"
    by (simp_all add: new_player_def truthy_def)
  from first_finisher_only_player_finished[OF h1 h2(1,2) h3 h4] h1 h2(3)
  show ?thesis by (simp add: sinceStart_def)
qed

text \<open>
  C7 as the specification words it fails: B joins A's room, A starts the race and is the first to
  finish, with rank 1; the server has sent \<open>player-finished\<close> and nothing named
  \<open>first-finisher-countdown\<close>.
\<close>

theorem first_finisher_no_countdown_counterexample:
  "map_option memberRanks (after (raceOfTwo @ clicks ''A'' ''ROOM01'' 5000 100) ''ROOM01'')
     = Some [Some 1, None]
   \<and> map_option sent (run (raceOfTwo @ clicks ''A'' ''ROOM01'' 5000 100) init)
     = Some [''room-created'', ''room-joined'', ''player-joined'', ''race-started'', ''player-finished'']"
  by code_simp

subsection \<open>Start of a race and elapsed time\<close>

text \<open>
  C8. The race should start at the scheduled instant announced as \<open>startTime\<close>, with
  \<open>raceStartedAt\<close> set to that instant and every elapsed time measured from it. The
  handler stores the clock reading of the start action instead: A creates a room and
  starts the race at clock reading 1000; \<open>race-started\<close> announces 4500 while
  \<open>raceStartedAt\<close> is 1000, and A, finishing at 9950 after a hundred clicks, is told
  8950, the time since the start action, and not 5450, the time since the announced
  start.
\<close>

theorem elapsed_time_from_start_action:
  "map_option raceStartedAt (after raceOfOne ''ROOM01'') = Some (Some 1000)
   \<and> map_option outbox (run (raceOfOne @ clicks ''A'' ''ROOM01'' 5000 100) init)
     = Some [(ToSocket ''A'',
              RoomCreated ''ROOM01''
                (PlayerView ''A'' ''Driver'' ''a-class'' ''#C0C0C0'' 0 None False False)),
             (ToRoom ''ROOM01'', RaceStarted 4500),
             (ToRoom ''ROOM01'', PlayerFinished ''A'' 1 8950),
             (ToRoom ''ROOM01'',
              RaceFinished
                [PlayerView ''A'' ''Driver'' ''a-class'' ''#C0C0C0'' 100 (Some 1) False False])]"
  by code_simp

subsection \<open>Room codes\<close>

text \<open>
  C9, as the code has it. For join-room and rejoin-room the lookup of the room code is
  case-insensitive. In a run whose nanoid draws are made of the nanoid alphabet, every
  registered code is made of it, and every ASCII spelling that is a case variant of the
  code of a room, lowercase, uppercase or mixed, is normalised to that code: the
  handler does what it does for the code itself, and puts the sender into that room
  (join-room when the room is in the lobby and not full).
\<close>

theorem join_lookup_case_insensitive:
  assumes reach: "run es init = Some st" and draws: "list_all nanoidDraws es"
    and look: "map_of (rooms st) k = Some room"
    and variant: "caseVariant (String.explode spelling) k"
  shows "list_all (\<lambda>c. c \<in> set ROOM_CODE_ALPHABET) k
       \<and> normalizeCode (Some spelling) = k
       \<and> join_room sid (Some spelling) nm model st = join_room sid (Some (String.implode k)) nm model st
       \<and> rejoin_room sid (Some spelling) nm model st = rejoin_room sid (Some (String.implode k)) nm model st
       \<and> rooms (rejoin_room sid (Some spelling) nm model st)
           = AList.update k
               (room\<lparr>players := AList.update sid (new_player sid nm model (getNextColor room)) (players room)\<rparr>)
               (rooms st)
       \<and> (phase room = Lobby \<and> length (players room) < 16 \<longrightarrow>
            rooms (join_room sid (Some spelling) nm model st)
              = AList.update k
                  (room\<lparr>players := AList.update sid (new_player sid nm model (getNextColor room)) (players room)\<rparr>)
                  (rooms st))"
proof -
  have alpha: "list_all (\<lambda>c. c \<in> set ROOM_CODE_ALPHABET) k"
    by (rule codes_lookup[OF codes_run[OF invariant_init codes_init draws reach] look])
  have 1: "normalizeCode (Some spelling) = k" by (rule normalizeCode_variant[OF alpha variant])
  have "caseVariant (String.explode (String.implode k)) k"
    unfolding explode_implode_code[OF alpha] by (rule caseVariant_refl)
  then have 2: "normalizeCode (Some (String.implode k)) = k" by (rule normalizeCode_variant[OF alpha])
  show ?thesis using look alpha by (simp add: join_room_def rejoin_room_def 1 2 Let_def emit_def)
qed

theorem join_lookup_case_insensitive_witness:
  "run createRace23 init = Some (stateAfter createRace23)
   \<and> list_all nanoidDraws createRace23
   \<and> map_of (rooms (stateAfter createRace23)) ''RACE23'' = Some race23Lobby
   \<and> caseVariant (String.explode (STR ''Race23'')) ''RACE23''
   \<and> phase race23Lobby = Lobby \<and> length (players race23Lobby) < 16
   \<and> normalizeCode (Some (STR ''Race23'')) = ''RACE23''
   \<and> rooms (join_room ''B'' (Some (STR ''Race23'')) None None (stateAfter createRace23))
       = AList.update ''RACE23''
           (race23Lobby\<lparr>players := AList.update ''B'' (new_player ''B'' None None (getNextColor race23Lobby))
                                          (players race23Lobby)\<rparr>)
           (rooms (stateAfter createRace23))
   \<and> map_option memberIds
        (roomAt ''RACE23'' (join_room ''B'' (Some (STR ''Race23'')) None None (stateAfter createRace23)))
       = Some [''A'', ''B'']"
proof -
  have h0: "run createRace23 init = Some (stateAfter createRace23)" by code_simp
  have h1: "list_all nanoidDraws createRace23" by code_simp
  have h2: "map_of (rooms (stateAfter createRace23)) ''RACE23'' = Some race23Lobby"
    by code_simp
  have h3: "caseVariant (String.explode (STR ''Race23'')) ''RACE23''" by code_simp
  have h4: "phase race23Lobby = Lobby" "length (players race23Lobby) < 16"
    by (simp_all add: race23Lobby_def)
  have h5: "map_option memberIds
      (roomAt ''RACE23'' (join_room ''B'' (Some (STR ''Race23'')) None None (stateAfter createRace23)))
       = Some [''A'', ''B'']"
    by code_simp
  from join_lookup_case_insensitive[OF h0 h1 h2 h3, of "''B''" None None] h0 h1 h2 h3 h4 h5
  show ?thesis by blast
qed

text \<open>
  C9 as the specification words it fails for start-race and click, which look the code up as sent:
  the host's start-race with the lowercase spelling leaves the room in the lobby, with
  the code itself it starts the race; a click with the lowercase spelling is dropped,
  with the code itself it counts.
\<close>

theorem start_race_lowercase_counterexample:
  "caseVariant ''race23'' ''RACE23''
   \<and> map_option phase
       (after [CreateRoom ''A'' None None 0 [''RACE23''], StartRace ''A'' ''race23'' 1000 1000] ''RACE23'')
     = Some Lobby
   \<and> map_option phase
       (after [CreateRoom ''A'' None None 0 [''RACE23''], StartRace ''A'' ''RACE23'' 1000 1000] ''RACE23'')
     = Some Racing
   \<and> map_option phase
       (after [CreateRoom ''A'' None None 0 [''RACE23''], JoinRoom ''B'' (Some (STR ''race23'')) None None,
               StartRace ''A'' ''RACE23'' 1000 1000, Click ''B'' ''race23'' 5000] ''RACE23'')
     = Some Racing
   \<and> map_option (map (progress \<circ> snd) \<circ> players)
       (after [CreateRoom ''A'' None None 0 [''RACE23''], JoinRoom ''B'' (Some (STR ''race23'')) None None,
               StartRace ''A'' ''RACE23'' 1000 1000, Click ''B'' ''race23'' 5000] ''RACE23'')
     = Some [0, 0]
   \<and> map_option (map (progress \<circ> snd) \<circ> players)
       (after [CreateRoom ''A'' None None 0 [''RACE23''], JoinRoom ''B'' (Some (STR ''race23'')) None None,
               StartRace ''A'' ''RACE23'' 1000 1000, Click ''B'' ''RACE23'' 5000] ''RACE23'')
     = Some [0, 1]"
  by code_simp

subsection \<open>The race nobody is left in\<close>

text \<open>
  C10, as the code has it. In a reachable state, when a disconnect in a racing room
  leaves no player connected and no player has finished, the all-finished check passes
  and the race ends at once: the room is finished and still registered under its code,
  the registry has the same codes as before, \<open>player-left\<close> and then
  \<open>race-finished\<close> are sent, and every player is disconnected, marked dnf and ranked
  1..N in descending progress. The room is not removed by that disconnect, and it stays
  registered through every later run of messages, timer callbacks and sweeps until one
  of two things removes it: a leave-room or disconnect of the room's only player while
  the room is not racing, or a TTL sweep more than two hours after the room was
  created.
\<close>

theorem last_player_leaves_race:
  assumes reach: "run es init = Some st"
    and found: "findRoomBySocket sid (rooms st) = Some (k, room)"
    and racing: "phase room = Racing"
    and gone: "list_all (\<lambda>kp. fst kp \<noteq> sid \<longrightarrow> disconnected (snd kp)) (players room)"
    and none: "list_all (\<lambda>kp. finishedAt (snd kp) = None) (players room)"
  shows "(\<exists>room' us.
      map_of (rooms (handleDisconnect sid st)) k = Some room' \<and> phase room' = Finished
    \<and> map fst (rooms (handleDisconnect sid st)) = map fst (rooms st)
    \<and> map fst (players room') = map fst (players room)
    \<and> mset (players room') = mset us
    \<and> outbox (handleDisconnect sid st)
        = outbox st @ [(ToRoom k, PlayerLeft sid None),
                       (ToRoom k, RaceFinished (map (serializePlayer \<circ> snd) us))]
    \<and> map (rank \<circ> snd) us = map Some [1..<Suc (length (players room))]
    \<and> list_all (\<lambda>kp. finishedAt (snd kp) = None \<and> dnf (snd kp) \<and> disconnected (snd kp)) us
    \<and> sorted_wrt (\<lambda>a b. progress (snd b) \<le> progress (snd a)) us)
    \<and> registered k (handleDisconnect sid st)
    \<and> (run es' (handleDisconnect sid st) = Some st' \<and> keepsRoom k es' (handleDisconnect sid st)
          \<longrightarrow> registered k st'
              \<and> (removesRoom k e st' \<and> step e st' = Some st'' \<longrightarrow> \<not> registered k st''))"
proof -
  have inv: "invariant st" using inv_run[OF invariant_init reach] .
  from findRoomBySocket_SomeD[OF found] obtain player where
    mem: "(k, room) \<in> set (rooms st)" and pl: "map_of (players room) sid = Some player" by auto
  from inv mem have look: "map_of (rooms st) k = Some room" by (auto simp: invariant_def)
  note rok = room_lookup[OF inv look]
  then have code: "code room = k" and dps: "distinct (map fst (players room))"
    by (simp_all add: room_ok_def)
  define ps1 where "ps1 = AList.update sid (player\<lparr>disconnected := True\<rparr>) (players room)"
  define room1 where "room1 = room\<lparr>players := ps1\<rparr>"
  define st1 where "st1 = emit (ToRoom k) (PlayerLeft sid None) (st\<lparr>rooms := AList.update k room1 (rooms st)\<rparr>)"
  define r0 where "r0 = room1\<lparr>phase := Finished\<rparr>"
  define room' where "room' = fst (buildResultsArray r0)"
  define us where "us = unfinishedPlayers room1"
  have keys1: "map fst ps1 = map fst (players room)"
    unfolding ps1_def by (rule map_fst_update[OF pl])
  have all1: "disconnected (snd kp) \<and> finishedAt (snd kp) = None" if "kp \<in> set ps1" for kp
  proof -
    from in_set_update_distinctD[OF dps that[unfolded ps1_def]]
    show ?thesis
    proof
      assume "kp = (sid, player\<lparr>disconnected := True\<rparr>)"
      moreover from pl have "(sid, player) \<in> set (players room)" by (rule map_of_SomeD)
      ultimately show ?thesis using none by (auto simp: list_all_iff)
    next
      assume "kp \<in> set (players room) \<and> fst kp \<noteq> sid"
      then show ?thesis using gone none by (auto simp: list_all_iff)
    qed
  qed
  have nofind: "find (\<lambda>i. case map_of ps1 i of None \<Rightarrow> False | Some p \<Rightarrow> \<not> disconnected p) (map fst ps1) = None"
  proof -
    have "\<not> (case map_of ps1 i of None \<Rightarrow> False | Some p \<Rightarrow> \<not> disconnected p)" for i
    proof (cases "map_of ps1 i")
      case None
      then show ?thesis by simp
    next
      case (Some p)
      then have "(i, p) \<in> set ps1" by (rule map_of_SomeD)
      from all1[OF this] Some show ?thesis by simp
    qed
    then show ?thesis by (simp add: find_None_iff)
  qed
  have hd1: "handleDisconnect sid st = checkAllFinished k k st1"
    using handleDisconnect_racing_nobody[OF found pl racing nofind[unfolded ps1_def]]
    by (simp add: code st1_def room1_def ps1_def)
  have look1: "map_of (rooms st1) k = Some room1" by (simp add: st1_def emit_def update_conv')
  have "filter (\<lambda>p. \<not> disconnected p) (map snd ps1) = []"
    using all1 by (auto simp: filter_empty_conv)
  then have hd2: "handleDisconnect sid st = endRace k k st1"
    using look1 by (simp add: hd1 checkAllFinished_def Let_def room1_def)
  have e: "endRace k k st1 =
          st1\<lparr>rooms := AList.update k room' (rooms st1),
              timers := clearTimer (raceTimeout room1) (clearTimer (broadcastInterval room1) (timers st1)),
              outbox := outbox st1 @ [(ToRoom k, RaceFinished (snd (buildResultsArray r0)))]\<rparr>"
    using look1 racing by (simp add: endRace_unfold room'_def r0_def room1_def)
  have fin0: "finishedPlayers room1 = []"
    using all1 by (auto simp: finishedPlayers_def room1_def truthy_def filter_empty_conv)
  have d: "distinct (map fst (players r0))" using dps by (simp add: r0_def room1_def keys1)
  have 1: "map_of (rooms (handleDisconnect sid st)) k = Some room'" by (simp add: hd2 e update_conv')
  have 2: "phase room' = Finished" by (simp add: room'_def r0_def)
  have "rooms (handleDisconnect sid st) = AList.update k room' (rooms st1)" by (simp add: hd2 e)
  moreover have "rooms st1 = AList.update k room1 (rooms st)" by (simp add: st1_def emit_def)
  ultimately have 3: "map fst (rooms (handleDisconnect sid st)) = map fst (rooms st)"
    using map_fst_update[OF look1, of room'] map_fst_update[OF look, of room1] by simp
  have 4: "map fst (players room') = map fst (players room)"
    by (simp add: room'_def r0_def room1_def keys1)
  have 5: "mset (players room') = mset us"
    using buildResultsArray_mset[OF d] fin0 by (simp add: room'_def us_def r0_def)
  have 6: "outbox (handleDisconnect sid st)
        = outbox st @ [(ToRoom k, PlayerLeft sid None),
                       (ToRoom k, RaceFinished (map (serializePlayer \<circ> snd) us))]"
  proof -
    have "outbox (handleDisconnect sid st)
            = outbox st1 @ [(ToRoom k, RaceFinished (snd (buildResultsArray r0)))]"
      by (simp add: hd2 e)
    moreover have "outbox st1 = outbox st @ [(ToRoom k, PlayerLeft sid None)]"
      by (simp add: st1_def emit_def)
    moreover have "snd (buildResultsArray r0) = map (serializePlayer \<circ> snd) us"
      using fin0 by (simp add: buildResultsArray_results us_def r0_def)
    ultimately show ?thesis by simp
  qed
  have "length (players room1) = length (players room)"
    using keys1 by (simp add: room1_def) (metis length_map)
  moreover have "map (rankNum \<circ> snd) (finishedPlayers room1) = [1..<Suc (length (finishedPlayers room1))]"
    by (simp add: fin0)
  from standings_ranks[OF this]
  have "map (rank \<circ> snd) us = map Some [1..<Suc (length (players room1))]"
    by (simp add: fin0 us_def)
  ultimately have 7: "map (rank \<circ> snd) us = map Some [1..<Suc (length (players room))]" by simp
  have 8: "list_all (\<lambda>kp. finishedAt (snd kp) = None \<and> dnf (snd kp) \<and> disconnected (snd kp)) us"
    unfolding list_all_iff us_def
  proof
    fix kp assume m: "kp \<in> set (unfinishedPlayers room1)"
    obtain s p' where kp: "kp = (s, p')" by (cases kp)
    from unfinishedPlayers_mem[OF m[unfolded kp]] obtain p n where
      p: "(s, p) \<in> set (players room1)" "p' = p\<lparr>rank := Some n, dnf := True\<rparr>" by blast
    from p(1) have "(s, p) \<in> set ps1" by (simp add: room1_def)
    from all1[OF this] p kp
    show "finishedAt (snd kp) = None \<and> dnf (snd kp) \<and> disconnected (snd kp)" by simp
  qed
  have 9: "sorted_wrt (\<lambda>a b. progress (snd b) \<le> progress (snd a)) us"
    unfolding us_def by (rule unfinishedPlayers_descending)
  have 10: "registered k (handleDisconnect sid st)" using 1 by (simp add: registered_def)
  have 11: "registered k st' \<and> (removesRoom k e st' \<and> step e st' = Some st'' \<longrightarrow> \<not> registered k st'')"
    if "run es' (handleDisconnect sid st) = Some st'" "keepsRoom k es' (handleDisconnect sid st)"
    using registered_run[OF inv_handleDisconnect[OF inv] 10 that(2,1)]
      removes_step[OF inv_run[OF inv_handleDisconnect[OF inv] that(1)], of k e st'']
    by blast
  from 1 2 3 4 5 6 7 8 9 10 11 show ?thesis by blast
qed

theorem last_player_leaves_race_witness:
  "run raceOfOne init = Some (stateAfter raceOfOne)
   \<and> findRoomBySocket ''A'' (rooms (stateAfter raceOfOne)) = Some (''ROOM01'', racingRoomOfOne)
   \<and> phase racingRoomOfOne = Racing
   \<and> list_all (\<lambda>kp. fst kp \<noteq> ''A'' \<longrightarrow> disconnected (snd kp)) (players racingRoomOfOne)
   \<and> list_all (\<lambda>kp. finishedAt (snd kp) = None) (players racingRoomOfOne)
   \<and> map_option phase (roomAt ''ROOM01'' (handleDisconnect ''A'' (stateAfter raceOfOne))) = Some Finished
   \<and> map fst (rooms (handleDisconnect ''A'' (stateAfter raceOfOne))) = map fst (rooms (stateAfter raceOfOne))
   \<and> run laterMessages (handleDisconnect ''A'' (stateAfter raceOfOne))
       = Some (stateAfter (raceOfOne @ Disconnect ''A'' # laterMessages))
   \<and> keepsRoom ''ROOM01'' laterMessages (handleDisconnect ''A'' (stateAfter raceOfOne))
   \<and> registered ''ROOM01'' (stateAfter (raceOfOne @ Disconnect ''A'' # laterMessages))
   \<and> removesRoom ''ROOM01'' (TtlSweep (\<lambda>c. 8000000)) (stateAfter (raceOfOne @ Disconnect ''A'' # laterMessages))
   \<and> \<not> registered ''ROOM01'' (stateAfter (raceOfOne @ Disconnect ''A'' # laterMessages @ [TtlSweep (\<lambda>c. 8000000)]))"
proof -
  have h1: "run raceOfOne init = Some (stateAfter raceOfOne)" by code_simp
  have h2: "findRoomBySocket ''A'' (rooms (stateAfter raceOfOne)) = Some (''ROOM01'', racingRoomOfOne)"
    by code_simp
  have h3: "phase racingRoomOfOne = Racing" by (simp add: racingRoomOfOne_def)
  have h4: "list_all (\<lambda>kp. fst kp \<noteq> ''A'' \<longrightarrow> disconnected (snd kp)) (players racingRoomOfOne)"
    by (simp add: racingRoomOfOne_def)
  have h5: "list_all (\<lambda>kp. finishedAt (snd kp) = None) (players racingRoomOfOne)"
    by (simp add: racingRoomOfOne_def new_player_def)
  have h6: "run laterMessages (handleDisconnect ''A'' (stateAfter raceOfOne))
              = Some (stateAfter (raceOfOne @ Disconnect ''A'' # laterMessages))"
    by code_simp
  have h7: "keepsRoom ''ROOM01'' laterMessages (handleDisconnect ''A'' (stateAfter raceOfOne))"
    by code_simp
  have h8: "removesRoom ''ROOM01'' (TtlSweep (\<lambda>c. 8000000)) (stateAfter (raceOfOne @ Disconnect ''A'' # laterMessages))"
    by code_simp
  have h9: "step (TtlSweep (\<lambda>c. 8000000)) (stateAfter (raceOfOne @ Disconnect ''A'' # laterMessages))
              = Some (stateAfter (raceOfOne @ Disconnect ''A'' # laterMessages @ [TtlSweep (\<lambda>c. 8000000)]))"
    by code_simp
  from last_player_leaves_race[OF h1 h2 h3 h4 h5, of laterMessages
      "stateAfter (raceOfOne @ Disconnect ''A'' # laterMessages)" "TtlSweep (\<lambda>c. 8000000)"
      "stateAfter (raceOfOne @ Disconnect ''A'' # laterMessages @ [TtlSweep (\<lambda>c. 8000000)])"]
    h1 h2 h3 h4 h5 h6 h7 h8 h9
  show ?thesis by (auto simp: roomAt_def)
qed

text \<open>
  C10 as the specification words it fails in its last part: A, racing alone, sends leave-room, and the
  race ends with the room still registered; when A's connection then closes, the
  finished branch of \<open>handleDisconnect\<close> removes the last player and deletes the room,
  with no TTL sweep.
\<close>

theorem room_gone_before_sweep_counterexample:
  "map_option phase (after (raceOfOne @ [LeaveRoom ''A'']) ''ROOM01'') = Some Finished
   \<and> map_option rooms (run (raceOfOne @ [LeaveRoom ''A'', Disconnect ''A'']) init) = Some []"
  by code_simp

end
